theory Spec2Isabelle
  imports Complex_Main
begin

section \<open>Python values and errors\<close>

text \<open>
  The two programs (TaskA.py: the supermarket, TaskB.py: the library) are SimPy models.
  Virtual time, durations and the busy-time statistics are Python numbers; they are
  modelled as \<open>real\<close>.  Counters are Python integers (\<open>int\<close>).  An exception
  raised inside a process or by the SimPy kernel ends the run; it is a value of
  type \<open>error\<close>.
\<close>

datatype error = ZeroDivisionError | ValueError | RuntimeError

section \<open>The pseudo-random source\<close>

text \<open>
  The programs draw from the global generator of module \<open>random\<close> (and, for the Poisson
  law, from \<open>numpy.random\<close>).  The stream is an input of the model: for the k-th draw of a
  run the source gives the float of \<open>random.random()\<close> (a number in [0, 1)), the raw
  integer behind \<open>randint\<close>, the standard normal deviate behind \<open>gauss\<close>, and the
  value of \<open>np.random.poisson\<close>.  The functions below are the library's own formulas:
  \<open>uniform(a, b) = a + (b - a) * random()\<close>,
  \<open>expovariate(lambd) = -log(1.0 - random()) / lambd\<close>,
  \<open>gauss(mu, sigma) = mu + z * sigma\<close>, and \<open>randint(a, b) = a + randbelow(b - a + 1)\<close>,
  which raises ValueError on an empty range.
\<close>

record random_source =
  random_draw :: "nat \<Rightarrow> real"
  randbelow_draw :: "nat \<Rightarrow> nat"
  gauss_draw :: "nat \<Rightarrow> real"
  poisson_draw :: "nat \<Rightarrow> nat"

definition uniform :: "real \<Rightarrow> real \<Rightarrow> real \<Rightarrow> real" where
  "uniform a b u = a + (b - a) * u"

definition expovariate :: "real \<Rightarrow> real \<Rightarrow> real" where
  "expovariate lambd u = - ln (1 - u) / lambd"

definition gauss :: "real \<Rightarrow> real \<Rightarrow> real \<Rightarrow> real" where
  "gauss mu sigma z = mu + z * sigma"

definition randint :: "int \<Rightarrow> int \<Rightarrow> nat \<Rightarrow> error + int" where
  "randint a b r =
     (if b < a then Inl ValueError else Inr (a + int (r mod nat (b - a + 1))))"

section \<open>The SimPy kernel\<close>

subsection \<open>Environment: clock and event heap\<close>

text \<open>
  \<open>Environment\<close> keeps the clock \<open>now\<close>, the heap of scheduled events, each entry
  \<open>(time, priority, eid, event)\<close>, and the counter \<open>eid\<close>.  \<open>schedule\<close> pushes an
  entry at \<open>now + delay\<close>; \<open>heappop\<close> takes the least entry in the lexicographic
  order of \<open>(time, priority, eid)\<close>.  The models extend the record with their own fields.
\<close>

type_synonym 'e entry = "real \<times> nat \<times> int \<times> 'e"

record 'e environment =
  now :: real
  queue :: "'e entry list"
  eid :: int

definition URGENT :: nat where "URGENT = 0"
definition NORMAL :: nat where "NORMAL = 1"

definition schedule ::
  "'e \<Rightarrow> nat \<Rightarrow> real \<Rightarrow> ('e, 'z) environment_scheme \<Rightarrow> ('e, 'z) environment_scheme" where
  "schedule e priority delay env =
     env\<lparr>queue := queue env @ [(now env + delay, priority, eid env, e)],
         eid := eid env + 1\<rparr>"

fun entry_before :: "'e entry \<Rightarrow> 'e entry \<Rightarrow> bool" where
  "entry_before (t1, p1, i1, _) (t2, p2, i2, _) =
     (t1 < t2 \<or> (t1 = t2 \<and> (p1 < p2 \<or> (p1 = p2 \<and> i1 < i2))))"

fun least_entry :: "'e entry \<Rightarrow> 'e entry list \<Rightarrow> 'e entry" where
  "least_entry m [] = m"
| "least_entry m (x # xs) = least_entry (if entry_before x m then x else m) xs"

definition heappop ::
  "('e, 'z) environment_scheme \<Rightarrow> ('e entry \<times> ('e, 'z) environment_scheme) option" where
  "heappop env =
     (case queue env of
        [] \<Rightarrow> None
      | x # xs \<Rightarrow>
          (let m = least_entry x xs
           in Some (m, env\<lparr>now := fst m, queue := remove1 m (queue env)\<rparr>)))"

text \<open>\<open>env.timeout(delay)\<close>: a negative delay raises ValueError; otherwise the
  event is scheduled with priority NORMAL.\<close>

definition timeout ::
  "'e \<Rightarrow> real \<Rightarrow> ('e, 'z) environment_scheme \<Rightarrow> error + ('e, 'z) environment_scheme" where
  "timeout e delay env =
     (if delay < 0 then Inl ValueError else Inr (schedule e NORMAL delay env))"

subsection \<open>Resource\<close>

text \<open>
  \<open>simpy.Resource\<close>: \<open>users\<close> are the requests holding a slot, \<open>put_queue\<close> the
  waiting requests in arrival order; a request is named by the process that made it.
  \<open>count\<close> is \<open>len(users)\<close>.  \<open>trigger_put\<close> looks at the head of the queue only
  (\<open>_do_put\<close> returns None, so the loop breaks after one request): it is granted when
  a slot is free, and the process whose request succeeded is returned so that the caller
  schedules the request event.  \<open>request\<close> appends to the queue and triggers;
  \<open>release\<close> removes the request from \<open>users\<close> (the Release event scheduled by the
  caller triggers the queue when it is processed).
\<close>

record resource =
  capacity :: nat
  users :: "nat list"
  put_queue :: "nat list"

definition Resource :: "nat \<Rightarrow> resource" where
  "Resource c = \<lparr>capacity = c, users = [], put_queue = []\<rparr>"

definition trigger_put :: "resource \<Rightarrow> resource \<times> nat option" where
  "trigger_put r =
     (case put_queue r of
        [] \<Rightarrow> (r, None)
      | p # ps \<Rightarrow>
          if length (users r) < capacity r
          then (r\<lparr>users := users r @ [p], put_queue := ps\<rparr>, Some p)
          else (r, None))"

definition request :: "nat \<Rightarrow> resource \<Rightarrow> resource \<times> nat option" where
  "request p r = trigger_put (r\<lparr>put_queue := put_queue r @ [p]\<rparr>)"

definition release :: "nat \<Rightarrow> resource \<Rightarrow> resource" where
  "release p r = r\<lparr>users := remove1 p (users r)\<rparr>"

text \<open>What one \<open>Environment.step\<close> leaves behind: the run goes on, the \<open>until\<close>
  event stopped it, or an exception ended it.\<close>

datatype 's outcome = Running 's | Stopped 's | Failed error

section \<open>TaskB.py: the library\<close>

subsection \<open>Parameters, statistics and processes\<close>

text \<open>
  \<open>params['ArrivalLaw']\<close> is a string compared with four literals (the Ukrainian
  names of the laws, in the order of the \<open>if\<close>/\<open>elif\<close> chain of
  \<open>ReaderGenerator\<close>); any other string is \<open>Unrecognized\<close>.
\<close>

datatype arrival_law = ContinuousUniform | Exponential | Normal | Poisson | Unrecognized string

record lib_params =
  SimTime :: real
  ServeTime :: "real \<times> real"
  ArrivalLaw :: arrival_law
  ArrivalTime :: "real \<times> real"

record statistic =
  ReaderServed :: int
  TimeWaiting :: "real list"
  TimeServed :: "real list"
  MaxQueueLen :: int
  QueueLen :: "(real \<times> int) list"
  LibrarianBusy :: "real list"
  BooksPerReader :: "int list"

text \<open>A reader process: where its generator is suspended, and its local variables.\<close>

datatype reader_pc = ReaderCreated | ReaderWaiting | ReaderServing | ReaderCompleted

record reader =
  readerId :: nat
  reader_pc :: reader_pc
  librarIndex :: nat
  queueStart :: real
  queueWait :: real
  startServe :: real

text \<open>
  The events of a library run, each with the callback it carries: the Initialize event
  of the generator and of a reader process, the generator's timeout, the request of a
  reader at a librarian (scheduled when it is granted), the service timeout of a reader,
  the Release event of a librarian (its callback triggers the put queue), the event of a
  process that has ended, and the \<open>until\<close> event of \<open>env.run\<close>.
\<close>

datatype lib_event =
    GeneratorInit | GeneratorTimeout | GeneratorEnd
  | ReaderInit nat | ReaderRequest nat nat | ReaderTimeout nat
  | LibrarianRelease nat | ReaderEnd nat | LibraryUntil

record library = "lib_event environment" +
  librarians :: "resource list"
  statistic :: statistic
  currentQueueLen :: int
  readers :: "reader list"
  nextReaderId :: nat
  lib_drawn :: nat

definition Library :: library where
  "Library =
     \<lparr>now = 0, queue = [], eid = 0,
      librarians = [Resource 1, Resource 1],
      statistic = \<lparr>ReaderServed = 0, TimeWaiting = [], TimeServed = [], MaxQueueLen = 0,
                   QueueLen = [], LibrarianBusy = [0, 0], BooksPerReader = []\<rparr>,
      currentQueueLen = 0, readers = [], nextReaderId = 1, lib_drawn = 0\<rparr>"

subsection \<open>\<open>Library.UpdateQueueStats\<close>\<close>

definition Library_UpdateQueueStats :: "library \<Rightarrow> library" where
  "Library_UpdateQueueStats s =
     s\<lparr>statistic := (statistic s)
         \<lparr>MaxQueueLen := max (MaxQueueLen (statistic s)) (currentQueueLen s),
          QueueLen := QueueLen (statistic s) @ [(now s, currentQueueLen s)]\<rparr>\<rparr>"

subsection \<open>\<open>Library.ReaderProcess\<close>\<close>

text \<open>Lines 30 to 34: the load of a librarian is \<open>count + len(queue)\<close>; the
  smaller load wins, and on equal loads the comparison of the busy times decides.\<close>

definition librarLoad :: "resource \<Rightarrow> int" where
  "librarLoad r = int (length (users r)) + int (length (put_queue r))"

definition select_librarIndex :: "resource list \<Rightarrow> real list \<Rightarrow> nat" where
  "select_librarIndex libs busy =
     (let librarFirstLoad = librarLoad (libs ! 0);
          librarSecLoad = librarLoad (libs ! 1)
      in if librarFirstLoad < librarSecLoad then 0
         else if librarSecLoad < librarFirstLoad then 1
         else (if busy ! 0 < busy ! 1 then 0 else 1))"

definition serve_interval :: "lib_params \<Rightarrow> real \<Rightarrow> real" where
  "serve_interval params u =
     (case ServeTime params of (baseTime, variation) \<Rightarrow>
        uniform (max 1 (baseTime - variation)) (baseTime + variation) u)"

text \<open>From the start of the process to \<open>yield req\<close>: the librarian is chosen, the
  request is made (and granted at once when the librarian is free), the reader is
  counted in the queue.\<close>

definition reader_start :: "nat \<Rightarrow> library \<Rightarrow> library" where
  "reader_start pid s =
     (let librarIndex' = select_librarIndex (librarians s) (LibrarianBusy (statistic s));
          (r, granted) = request pid (librarians s ! librarIndex');
          s1 = s\<lparr>librarians := (librarians s)[librarIndex' := r]\<rparr>;
          s2 = (case granted of
                  None \<Rightarrow> s1
                | Some p \<Rightarrow> schedule (ReaderRequest librarIndex' p) NORMAL 0 s1);
          s3 = Library_UpdateQueueStats (s2\<lparr>currentQueueLen := currentQueueLen s2 + 1\<rparr>)
      in s3\<lparr>readers := (readers s3)[pid := (readers s3 ! pid)
              \<lparr>reader_pc := ReaderWaiting, librarIndex := librarIndex',
               queueStart := now s\<rparr>]\<rparr>)"

text \<open>From the granted request to the service timeout.\<close>

definition reader_granted ::
  "lib_params \<Rightarrow> random_source \<Rightarrow> nat \<Rightarrow> library \<Rightarrow> error + library" where
  "reader_granted params rs pid s =
     (let me = readers s ! pid;
          s1 = Library_UpdateQueueStats (s\<lparr>currentQueueLen := currentQueueLen s - 1\<rparr>);
          interval = serve_interval params (random_draw rs (lib_drawn s));
          s2 = s1\<lparr>lib_drawn := lib_drawn s + 1,
                  readers := (readers s1)[pid := me
                    \<lparr>reader_pc := ReaderServing, queueWait := now s - queueStart me,
                     startServe := now s\<rparr>]\<rparr>
      in timeout (ReaderTimeout pid) interval s2)"

text \<open>After the service: the statistics of the reader are written, the \<open>with\<close>
  block releases the librarian, and the process ends.\<close>

definition reader_served :: "random_source \<Rightarrow> nat \<Rightarrow> library \<Rightarrow> error + library" where
  "reader_served rs pid s =
     (let me = readers s ! pid in
      case randint 1 5 (randbelow_draw rs (lib_drawn s)) of
        Inl e \<Rightarrow> Inl e
      | Inr getBooks \<Rightarrow>
          (let st = statistic s;
               st' = st\<lparr>TimeWaiting := TimeWaiting st @ [queueWait me],
                        TimeServed := TimeServed st @ [now s - startServe me],
                        ReaderServed := ReaderServed st + 1,
                        LibrarianBusy := (LibrarianBusy st)[librarIndex me :=
                           LibrarianBusy st ! librarIndex me + (now s - startServe me)],
                        BooksPerReader := BooksPerReader st @ [getBooks]\<rparr>;
               s1 = s\<lparr>statistic := st', lib_drawn := lib_drawn s + 1,
                       librarians := (librarians s)[librarIndex me :=
                          release pid (librarians s ! librarIndex me)],
                       readers := (readers s)[pid := me\<lparr>reader_pc := ReaderCompleted\<rparr>]\<rparr>
           in Inr (schedule (ReaderEnd pid) NORMAL 0
                     (schedule (LibrarianRelease (librarIndex me)) NORMAL 0 s1))))"

text \<open>The callback of a Release event: the head of the librarian's queue is granted.\<close>

definition librarian_released :: "nat \<Rightarrow> library \<Rightarrow> library" where
  "librarian_released i s =
     (let (r, granted) = trigger_put (librarians s ! i);
          s1 = s\<lparr>librarians := (librarians s)[i := r]\<rparr>
      in case granted of
           None \<Rightarrow> s1
         | Some p \<Rightarrow> schedule (ReaderRequest i p) NORMAL 0 s1)"

subsection \<open>\<open>ReaderGenerator\<close>\<close>

text \<open>\<open>env.process(library.ReaderProcess(readerId))\<close>: a new process, whose
  Initialize event is scheduled with priority URGENT.\<close>

definition spawn_reader :: "library \<Rightarrow> library" where
  "spawn_reader s =
     schedule (ReaderInit (length (readers s))) URGENT 0
       (s\<lparr>readers := readers s @
             [\<lparr>readerId = nextReaderId s, reader_pc = ReaderCreated, librarIndex = 0,
               queueStart = 0, queueWait = 0, startServe = 0\<rparr>],
          nextReaderId := nextReaderId s + 1\<rparr>)"

fun spawn_readers :: "nat \<Rightarrow> library \<Rightarrow> library" where
  "spawn_readers 0 s = s"
| "spawn_readers (Suc n) s = spawn_readers n (spawn_reader s)"

text \<open>The gap before the next arrival under the three laws that draw one, from the
  float \<open>u\<close> of \<open>random()\<close> or the normal deviate \<open>z\<close>.  \<open>1.0 / x\<close> raises
  ZeroDivisionError at zero.\<close>

definition uniform_interval :: "lib_params \<Rightarrow> real \<Rightarrow> real" where
  "uniform_interval params u =
     (case ArrivalTime params of (baseTime, variation) \<Rightarrow>
        uniform (max 1 (baseTime - variation)) (baseTime + variation) u)"

definition exponential_interval :: "lib_params \<Rightarrow> real \<Rightarrow> error + real" where
  "exponential_interval params u =
     (if fst (ArrivalTime params) = 0 then Inl ZeroDivisionError
      else Inr (expovariate (1 / fst (ArrivalTime params)) u))"

definition normal_interval :: "lib_params \<Rightarrow> real \<Rightarrow> real" where
  "normal_interval params z =
     (case ArrivalTime params of (baseTime, variation) \<Rightarrow>
        max (1 / 10) (gauss baseTime variation z))"

text \<open>The head of each \<open>while True\<close> loop, up to its \<open>yield env.timeout(...)\<close>.
  Under the Poisson law the timeout is the fixed hour and nothing is drawn; with an
  unrecognized law no branch of the chain is taken and the generator returns, which
  schedules the event of the ended process.\<close>

definition generator_wait ::
  "lib_params \<Rightarrow> random_source \<Rightarrow> library \<Rightarrow> error + library" where
  "generator_wait params rs s =
     (let s' = s\<lparr>lib_drawn := lib_drawn s + 1\<rparr> in
      case ArrivalLaw params of
        ContinuousUniform \<Rightarrow>
          timeout GeneratorTimeout (uniform_interval params (random_draw rs (lib_drawn s))) s'
      | Exponential \<Rightarrow>
          (case exponential_interval params (random_draw rs (lib_drawn s)) of
             Inl e \<Rightarrow> Inl e
           | Inr interval \<Rightarrow> timeout GeneratorTimeout interval s')
      | Normal \<Rightarrow>
          timeout GeneratorTimeout (normal_interval params (gauss_draw rs (lib_drawn s))) s'
      | Poisson \<Rightarrow> timeout GeneratorTimeout 3600 s
      | Unrecognized tag \<Rightarrow> Inr (schedule GeneratorEnd NORMAL 0 s))"

text \<open>The generator resumed by its timeout: the arrivals, then the next wait.
  \<open>np.random.poisson\<close> raises ValueError on a negative mean.\<close>

definition generator_arrive ::
  "lib_params \<Rightarrow> random_source \<Rightarrow> library \<Rightarrow> error + library" where
  "generator_arrive params rs s =
     (case ArrivalLaw params of
        Unrecognized tag \<Rightarrow> Inr s
      | Poisson \<Rightarrow>
          if fst (ArrivalTime params) < 0 then Inl ValueError
          else generator_wait params rs
                 (spawn_readers (poisson_draw rs (lib_drawn s))
                    (s\<lparr>lib_drawn := lib_drawn s + 1\<rparr>))
      | _ \<Rightarrow> generator_wait params rs (spawn_reader s))"

subsection \<open>\<open>Environment.step\<close>, \<open>Environment.run\<close> and \<open>RunSim\<close>\<close>

definition continue :: "error + 's \<Rightarrow> 's outcome" where
  "continue r = (case r of Inl e \<Rightarrow> Failed e | Inr s \<Rightarrow> Running s)"

text \<open>
  \<open>Process._resume\<close>: whatever event resumes a process, its generator goes on from
  the \<open>yield\<close> at which it is suspended.  Resuming an exhausted generator raises
  StopIteration at once, which schedules the event of the ended process again.
\<close>

definition ReaderProcess ::
  "lib_params \<Rightarrow> random_source \<Rightarrow> nat \<Rightarrow> library \<Rightarrow> error + library" where
  "ReaderProcess params rs pid s =
     (case reader_pc (readers s ! pid) of
        ReaderCreated \<Rightarrow> Inr (reader_start pid s)
      | ReaderWaiting \<Rightarrow> reader_granted params rs pid s
      | ReaderServing \<Rightarrow> reader_served rs pid s
      | ReaderCompleted \<Rightarrow> Inr (schedule (ReaderEnd pid) NORMAL 0 s))"

fun lib_callbacks ::
  "lib_params \<Rightarrow> random_source \<Rightarrow> lib_event \<Rightarrow> library \<Rightarrow> library outcome" where
  "lib_callbacks params rs GeneratorInit s =
     continue (generator_wait params rs (s\<lparr>nextReaderId := 1\<rparr>))"
| "lib_callbacks params rs GeneratorTimeout s = continue (generator_arrive params rs s)"
| "lib_callbacks params rs GeneratorEnd s = Running s"
| "lib_callbacks params rs (ReaderInit pid) s = continue (ReaderProcess params rs pid s)"
| "lib_callbacks params rs (ReaderRequest i pid) s = continue (ReaderProcess params rs pid s)"
| "lib_callbacks params rs (ReaderTimeout pid) s = continue (ReaderProcess params rs pid s)"
| "lib_callbacks params rs (LibrarianRelease i) s = Running (librarian_released i s)"
| "lib_callbacks params rs (ReaderEnd pid) s = Running s"
| "lib_callbacks params rs LibraryUntil s = Stopped s"

text \<open>One step pops the least entry, moves the clock to its time and runs its
  callbacks.  An empty heap before the \<open>until\<close> event is SimPy's RuntimeError.\<close>

definition Library_step :: "lib_params \<Rightarrow> random_source \<Rightarrow> library \<Rightarrow> library outcome" where
  "Library_step params rs s =
     (case heappop s of
        None \<Rightarrow> Failed RuntimeError
      | Some ((t, priority, i, e), s') \<Rightarrow> lib_callbacks params rs e s')"

text \<open>The loop \<open>while True: self.step()\<close> may run forever (arrivals with zero gaps
  never advance the clock), so it is given fuel: \<open>None\<close> says the fuel ran out.\<close>

fun Library_run ::
  "lib_params \<Rightarrow> random_source \<Rightarrow> nat \<Rightarrow> library \<Rightarrow> (error + library) option" where
  "Library_run params rs 0 s = None"
| "Library_run params rs (Suc n) s =
     (case Library_step params rs s of
        Running s' \<Rightarrow> Library_run params rs n s'
      | Stopped s' \<Rightarrow> Some (Inr s')
      | Failed e \<Rightarrow> Some (Inl e))"

text \<open>\<open>RunSim\<close> of TaskB.py: the generator process is created, \<open>env.run(until)\<close>
  raises ValueError unless \<open>until\<close> is after the current time, schedules the
  \<open>until\<close> event (URGENT) and steps until that event is processed; the result is
  \<open>library.statistic\<close>.\<close>

definition Library_start :: "lib_params \<Rightarrow> error + library" where
  "Library_start params =
     (let s = schedule GeneratorInit URGENT 0 Library
      in if SimTime params \<le> now s then Inl ValueError
         else Inr (schedule LibraryUntil URGENT (SimTime params - now s) s))"

definition Library_RunSim ::
  "lib_params \<Rightarrow> random_source \<Rightarrow> nat \<Rightarrow> (error + statistic) option" where
  "Library_RunSim params rs fuel =
     (case Library_start params of
        Inl e \<Rightarrow> Some (Inl e)
      | Inr s \<Rightarrow>
          (case Library_run params rs fuel s of
             None \<Rightarrow> None
           | Some (Inl e) \<Rightarrow> Some (Inl e)
           | Some (Inr s') \<Rightarrow> Some (Inr (statistic s'))))"

section \<open>TaskA.py: the supermarket\<close>

subsection \<open>Parameters, statistics and processes\<close>

record market_params =
  simTime :: real
  meanInterval :: real
  payTimePerItem :: real

record counter_data =
  probability :: real
  time :: "real \<times> real"
  purchases :: "int \<times> int"

text \<open>The dictionary of the three counters, in its insertion order, which is the
  order of \<open>COUNTERSDATA.items()\<close>.\<close>

definition COUNTERSDATA :: "(nat \<times> counter_data) list" where
  "COUNTERSDATA =
     [(1, \<lparr>probability = 75 / 100, time = (120, 60), purchases = (3, 1)\<rparr>),
      (2, \<lparr>probability = 55 / 100, time = (150, 30), purchases = (4, 1)\<rparr>),
      (3, \<lparr>probability = 82 / 100, time = (120, 45), purchases = (5, 1)\<rparr>)]"

text \<open>A value stored under \<open>'arrivalTime'\<close>: a number, or the Environment object
  itself (line 48 assigns \<open>self.env\<close>).\<close>

datatype pyval = Number real | EnvironmentObject

record customer_record =
  rec_id :: nat
  rec_arrivalTime :: pyval
  rec_totalPurchases :: int
  rec_waitTime :: real
  rec_serviceTime :: real
  rec_exitTime :: real

record stats =
  customersServed :: int
  maxQueueLength :: int
  maxBasketsInUse :: int
  cashierBusyTime :: real
  queueLengths :: "(real \<times> int) list"
  basketsInUse :: int
  basketsHistory :: "(real \<times> int) list"
  serviceTimes :: "real list"
  waitTimes :: "real list"
  purchaseCounts :: "int list"
  customerData :: "customer_record list"

text \<open>A customer process: where its generator is suspended (at the request of a
  counter, in the selection timeout, at the request of the cashier, in the payment
  timeout), the position reached in the loop over the counters, and its local
  variables.\<close>

datatype customer_pc =
  CustomerCreated | AtCounter | Selecting | AtCashier | Paying | CustomerCompleted

record customer =
  customerId :: nat
  customer_pc :: customer_pc
  counter_pos :: nat
  arrivalTime :: pyval
  totalPurchases :: int
  queueStartTime :: real

datatype market_event =
    CustomerGeneratorInit | CustomerGeneratorTimeout
  | CustomerInit nat | CounterRequest nat | SelectionTimeout nat | CounterRelease nat
  | CashierRequest nat | PaymentTimeout nat | CashierRelease | CustomerEnd nat
  | MarketUntil

record supermarket = "market_event environment" +
  counters :: "resource list"
  cashier :: resource
  stats :: stats
  currentQueueLength :: int
  cashierBusyStart :: "real option"
  customers :: "customer list"
  nextCustomerId :: nat
  market_drawn :: nat

definition Supermarket :: supermarket where
  "Supermarket =
     \<lparr>now = 0, queue = [], eid = 0,
      counters = [Resource 1, Resource 1, Resource 1],
      cashier = Resource 1,
      stats = \<lparr>customersServed = 0, maxQueueLength = 0, maxBasketsInUse = 0,
               cashierBusyTime = 0, queueLengths = [], basketsInUse = 0,
               basketsHistory = [], serviceTimes = [], waitTimes = [],
               purchaseCounts = [], customerData = []\<rparr>,
      currentQueueLength = 0, cashierBusyStart = None, customers = [],
      nextCustomerId = 1, market_drawn = 0\<rparr>"

subsection \<open>\<open>UpdateQueueStats\<close> and \<open>UpdateBasketStats\<close>\<close>

definition UpdateQueueStats :: "supermarket \<Rightarrow> supermarket" where
  "UpdateQueueStats s =
     s\<lparr>stats := (stats s)
         \<lparr>maxQueueLength := max (maxQueueLength (stats s)) (currentQueueLength s),
          queueLengths := queueLengths (stats s) @ [(now s, currentQueueLength s)]\<rparr>\<rparr>"

definition UpdateBasketStats :: "supermarket \<Rightarrow> supermarket" where
  "UpdateBasketStats s =
     s\<lparr>stats := (stats s)
         \<lparr>maxBasketsInUse := max (maxBasketsInUse (stats s)) (basketsInUse (stats s)),
          basketsHistory := basketsHistory (stats s) @ [(now s, basketsInUse (stats s))]\<rparr>\<rparr>"

definition set_customer :: "nat \<Rightarrow> customer \<Rightarrow> supermarket \<Rightarrow> supermarket" where
  "set_customer pid c s = s\<lparr>customers := (customers s)[pid := c]\<rparr>"

subsection \<open>\<open>Supermarket.CashierProcess\<close>\<close>

text \<open>Lines 103 to 110, up to \<open>yield req\<close>: the customer joins the queue, the
  start of the busy interval is marked when none is marked, the cashier is requested.\<close>

definition CashierProcess_enter :: "nat \<Rightarrow> supermarket \<Rightarrow> supermarket" where
  "CashierProcess_enter pid s =
     (let s1 = UpdateQueueStats (s\<lparr>currentQueueLength := currentQueueLength s + 1\<rparr>);
          s2 = (case cashierBusyStart s1 of
                  None \<Rightarrow> s1\<lparr>cashierBusyStart := Some (now s1)\<rparr>
                | Some b \<Rightarrow> s1);
          (r, granted) = request pid (cashier s2);
          s3 = s2\<lparr>cashier := r\<rparr>
      in case granted of
           None \<Rightarrow> s3
         | Some p \<Rightarrow> schedule (CashierRequest p) NORMAL 0 s3)"

text \<open>Lines 112 to 118: the request is granted; the customer leaves the queue and
  the payment timeout of \<open>totalPurchases * payTimePerItem\<close> starts.\<close>

definition CashierProcess_granted ::
  "market_params \<Rightarrow> nat \<Rightarrow> supermarket \<Rightarrow> error + supermarket" where
  "CashierProcess_granted params pid s =
     (let me = customers s ! pid;
          s1 = UpdateQueueStats (s\<lparr>currentQueueLength := currentQueueLength s - 1\<rparr>);
          serviceTime = of_int (totalPurchases me) * payTimePerItem params;
          s2 = s1\<lparr>stats := (stats s1)\<lparr>serviceTimes := serviceTimes (stats s1) @ [serviceTime]\<rparr>\<rparr>
      in timeout (PaymentTimeout pid) serviceTime
           (set_customer pid (me\<lparr>customer_pc := Paying\<rparr>) s2))"

text \<open>Lines 120 to 122 and the end of the \<open>with\<close> block: the busy interval is
  closed when one is marked, and the cashier is released.\<close>

definition CashierProcess_paid :: "nat \<Rightarrow> supermarket \<Rightarrow> supermarket" where
  "CashierProcess_paid pid s =
     (let s1 = (case cashierBusyStart s of
                  None \<Rightarrow> s
                | Some b \<Rightarrow>
                    s\<lparr>stats := (stats s)
                        \<lparr>cashierBusyTime := cashierBusyTime (stats s) + (now s - b)\<rparr>,
                      cashierBusyStart := None\<rparr>)
      in schedule CashierRelease NORMAL 0 (s1\<lparr>cashier := release pid (cashier s1)\<rparr>))"

subsection \<open>\<open>Supermarket.CustomerProcess\<close> and \<open>Supermarket.VisitCounters\<close>\<close>

text \<open>Lines 54 to 58: the extra purchases, the start of the wait, and the entry
  into \<open>CashierProcess\<close>.\<close>

definition CustomerProcess_checkout ::
  "random_source \<Rightarrow> nat \<Rightarrow> supermarket \<Rightarrow> error + supermarket" where
  "CustomerProcess_checkout rs pid s =
     (let me = customers s ! pid in
      case randint 1 3 (randbelow_draw rs (market_drawn s)) of
        Inl e \<Rightarrow> Inl e
      | Inr extraPurchases \<Rightarrow>
          Inr (CashierProcess_enter pid
                 (set_customer pid
                    (me\<lparr>totalPurchases := totalPurchases me + extraPurchases,
                        queueStartTime := now s, customer_pc := AtCashier\<rparr>)
                    (s\<lparr>market_drawn := market_drawn s + 1\<rparr>))))"

text \<open>\<open>with self.counters[counterId - 1].request() as req: yield req\<close>.\<close>

definition counter_request :: "nat \<Rightarrow> nat \<Rightarrow> nat \<Rightarrow> supermarket \<Rightarrow> supermarket" where
  "counter_request pid k i s =
     (let (r, granted) = request pid (counters s ! i);
          s1 = s\<lparr>counters := (counters s)[i := r]\<rparr>;
          s2 = (case granted of
                  None \<Rightarrow> s1
                | Some p \<Rightarrow> schedule (CounterRequest p) NORMAL 0 s1)
      in set_customer pid ((customers s2 ! pid)\<lparr>customer_pc := AtCounter, counter_pos := k\<rparr>) s2)"

text \<open>The loop of \<open>VisitCounters\<close> from position \<open>k\<close> over the remaining items:
  a counter is visited when \<open>random.random() < probability\<close>, and the process is
  suspended at its request; after the last counter the customer goes to the checkout.\<close>

fun VisitCounters ::
  "random_source \<Rightarrow> nat \<Rightarrow> nat \<Rightarrow> (nat \<times> counter_data) list \<Rightarrow> supermarket
     \<Rightarrow> error + supermarket" where
  "VisitCounters rs pid k [] s = CustomerProcess_checkout rs pid s"
| "VisitCounters rs pid k ((counterId, counterData) # rest) s =
     (let u = random_draw rs (market_drawn s);
          s1 = s\<lparr>market_drawn := market_drawn s + 1\<rparr>
      in if u < probability counterData
         then Inr (counter_request pid k (counterId - 1) s1)
         else VisitCounters rs pid (k + 1) rest s1)"

text \<open>Lines 48 to 53: the start of a customer process.\<close>

definition CustomerProcess_start ::
  "random_source \<Rightarrow> nat \<Rightarrow> supermarket \<Rightarrow> error + supermarket" where
  "CustomerProcess_start rs pid s =
     (let me = (customers s ! pid)\<lparr>arrivalTime := EnvironmentObject, totalPurchases := 0\<rparr>;
          s1 = s\<lparr>stats := (stats s)\<lparr>basketsInUse := basketsInUse (stats s) + 1\<rparr>\<rparr>
      in VisitCounters rs pid 0 COUNTERSDATA (set_customer pid me (UpdateBasketStats s1)))"

text \<open>Lines 86 to 91: the selection time at the counter that was granted.\<close>

definition selectionTime :: "counter_data \<Rightarrow> real \<Rightarrow> real" where
  "selectionTime counterData u =
     (case time counterData of (baseTime, variation) \<Rightarrow>
        uniform (max 0 (baseTime - variation)) (baseTime + variation) u)"

definition counter_granted ::
  "random_source \<Rightarrow> nat \<Rightarrow> supermarket \<Rightarrow> error + supermarket" where
  "counter_granted rs pid s =
     (let me = customers s ! pid;
          counterData = snd (COUNTERSDATA ! counter_pos me)
      in timeout (SelectionTimeout pid)
           (selectionTime counterData (random_draw rs (market_drawn s)))
           (set_customer pid (me\<lparr>customer_pc := Selecting\<rparr>)
              (s\<lparr>market_drawn := market_drawn s + 1\<rparr>)))"

text \<open>Lines 93 to 98: the purchases at the counter, the release of the counter at the
  end of the \<open>with\<close> block, and the rest of the loop.\<close>

definition counter_done ::
  "random_source \<Rightarrow> nat \<Rightarrow> supermarket \<Rightarrow> error + supermarket" where
  "counter_done rs pid s =
     (let me = customers s ! pid;
          (counterId, counterData) = COUNTERSDATA ! counter_pos me;
          (basePurchases, purchaseVariation) = purchases counterData
      in case randint (max 1 (basePurchases - purchaseVariation))
                (basePurchases + purchaseVariation) (randbelow_draw rs (market_drawn s)) of
           Inl e \<Rightarrow> Inl e
         | Inr n \<Rightarrow>
             (let s1 = s\<lparr>market_drawn := market_drawn s + 1,
                         counters := (counters s)[counterId - 1 :=
                            release pid (counters s ! (counterId - 1))]\<rparr>;
                  s2 = schedule (CounterRelease (counterId - 1)) NORMAL 0
                         (set_customer pid (me\<lparr>totalPurchases := totalPurchases me + n\<rparr>) s1)
              in VisitCounters rs pid (counter_pos me + 1)
                   (drop (counter_pos me + 1) COUNTERSDATA) s2))"

text \<open>Lines 59 to 76: after the checkout the basket is returned and the statistics
  of the customer are written; then the process ends.\<close>

definition CustomerProcess_finish ::
  "market_params \<Rightarrow> nat \<Rightarrow> supermarket \<Rightarrow> supermarket" where
  "CustomerProcess_finish params pid s =
     (let me = customers s ! pid;
          waitTime = now s - queueStartTime me;
          s1 = UpdateBasketStats
                 (s\<lparr>stats := (stats s)\<lparr>basketsInUse := basketsInUse (stats s) - 1\<rparr>\<rparr>);
          st = stats s1;
          st' = st\<lparr>customersServed := customersServed st + 1,
                   purchaseCounts := purchaseCounts st @ [totalPurchases me],
                   waitTimes := waitTimes st @ [waitTime],
                   customerData := customerData st @
                     [\<lparr>rec_id = customerId me, rec_arrivalTime = arrivalTime me,
                       rec_totalPurchases = totalPurchases me, rec_waitTime = waitTime,
                       rec_serviceTime = of_int (totalPurchases me) * payTimePerItem params,
                       rec_exitTime = now s\<rparr>]\<rparr>
      in schedule (CustomerEnd pid) NORMAL 0
           (set_customer pid (me\<lparr>customer_pc := CustomerCompleted\<rparr>) (s1\<lparr>stats := st'\<rparr>)))"

text \<open>The callbacks of the Release events.\<close>

definition counter_released :: "nat \<Rightarrow> supermarket \<Rightarrow> supermarket" where
  "counter_released i s =
     (let (r, granted) = trigger_put (counters s ! i);
          s1 = s\<lparr>counters := (counters s)[i := r]\<rparr>
      in case granted of
           None \<Rightarrow> s1
         | Some p \<Rightarrow> schedule (CounterRequest p) NORMAL 0 s1)"

definition cashier_released :: "supermarket \<Rightarrow> supermarket" where
  "cashier_released s =
     (let (r, granted) = trigger_put (cashier s);
          s1 = s\<lparr>cashier := r\<rparr>
      in case granted of
           None \<Rightarrow> s1
         | Some p \<Rightarrow> schedule (CashierRequest p) NORMAL 0 s1)"

subsection \<open>\<open>CustomerGenerator\<close>\<close>

definition spawn_customer :: "supermarket \<Rightarrow> supermarket" where
  "spawn_customer s =
     schedule (CustomerInit (length (customers s))) URGENT 0
       (s\<lparr>customers := customers s @
             [\<lparr>customerId = nextCustomerId s, customer_pc = CustomerCreated,
               counter_pos = 0, arrivalTime = Number 0, totalPurchases = 0,
               queueStartTime = 0\<rparr>],
          nextCustomerId := nextCustomerId s + 1\<rparr>)"

text \<open>\<open>interval = random.expovariate(1.0 / meanInterval)\<close>, passed to
  \<open>env.timeout\<close> as it is.\<close>

definition customer_interval :: "market_params \<Rightarrow> real \<Rightarrow> error + real" where
  "customer_interval params u =
     (if meanInterval params = 0 then Inl ZeroDivisionError
      else Inr (expovariate (1 / meanInterval params) u))"

definition CustomerGenerator_wait ::
  "market_params \<Rightarrow> random_source \<Rightarrow> supermarket \<Rightarrow> error + supermarket" where
  "CustomerGenerator_wait params rs s =
     (case customer_interval params (random_draw rs (market_drawn s)) of
        Inl e \<Rightarrow> Inl e
      | Inr interval \<Rightarrow>
          timeout CustomerGeneratorTimeout interval (s\<lparr>market_drawn := market_drawn s + 1\<rparr>))"

subsection \<open>\<open>Environment.step\<close>, \<open>Environment.run\<close> and \<open>RunSim\<close>\<close>

definition CustomerProcess ::
  "market_params \<Rightarrow> random_source \<Rightarrow> nat \<Rightarrow> supermarket \<Rightarrow> error + supermarket" where
  "CustomerProcess params rs pid s =
     (case customer_pc (customers s ! pid) of
        CustomerCreated \<Rightarrow> CustomerProcess_start rs pid s
      | AtCounter \<Rightarrow> counter_granted rs pid s
      | Selecting \<Rightarrow> counter_done rs pid s
      | AtCashier \<Rightarrow> CashierProcess_granted params pid s
      | Paying \<Rightarrow> Inr (CustomerProcess_finish params pid (CashierProcess_paid pid s))
      | CustomerCompleted \<Rightarrow> Inr (schedule (CustomerEnd pid) NORMAL 0 s))"

fun market_callbacks ::
  "market_params \<Rightarrow> random_source \<Rightarrow> market_event \<Rightarrow> supermarket \<Rightarrow> supermarket outcome"
  where
  "market_callbacks params rs CustomerGeneratorInit s =
     continue (CustomerGenerator_wait params rs (s\<lparr>nextCustomerId := 1\<rparr>))"
| "market_callbacks params rs CustomerGeneratorTimeout s =
     continue (CustomerGenerator_wait params rs (spawn_customer s))"
| "market_callbacks params rs (CustomerInit pid) s = continue (CustomerProcess params rs pid s)"
| "market_callbacks params rs (CounterRequest pid) s = continue (CustomerProcess params rs pid s)"
| "market_callbacks params rs (SelectionTimeout pid) s =
     continue (CustomerProcess params rs pid s)"
| "market_callbacks params rs (CashierRequest pid) s = continue (CustomerProcess params rs pid s)"
| "market_callbacks params rs (PaymentTimeout pid) s = continue (CustomerProcess params rs pid s)"
| "market_callbacks params rs (CounterRelease i) s = Running (counter_released i s)"
| "market_callbacks params rs CashierRelease s = Running (cashier_released s)"
| "market_callbacks params rs (CustomerEnd pid) s = Running s"
| "market_callbacks params rs MarketUntil s = Stopped s"

definition Supermarket_step ::
  "market_params \<Rightarrow> random_source \<Rightarrow> supermarket \<Rightarrow> supermarket outcome" where
  "Supermarket_step params rs s =
     (case heappop s of
        None \<Rightarrow> Failed RuntimeError
      | Some ((t, priority, i, e), s') \<Rightarrow> market_callbacks params rs e s')"

fun Supermarket_run ::
  "market_params \<Rightarrow> random_source \<Rightarrow> nat \<Rightarrow> supermarket \<Rightarrow> (error + supermarket) option"
  where
  "Supermarket_run params rs 0 s = None"
| "Supermarket_run params rs (Suc n) s =
     (case Supermarket_step params rs s of
        Running s' \<Rightarrow> Supermarket_run params rs n s'
      | Stopped s' \<Rightarrow> Some (Inr s')
      | Failed e \<Rightarrow> Some (Inl e))"

definition Supermarket_start :: "market_params \<Rightarrow> error + supermarket" where
  "Supermarket_start params =
     (let s = schedule CustomerGeneratorInit URGENT 0 Supermarket
      in if simTime params \<le> now s then Inl ValueError
         else Inr (schedule MarketUntil URGENT (simTime params - now s) s))"

text \<open>Lines 147 and 148 of \<open>RunSim\<close>: a busy interval still marked when the run
  stops is closed at \<open>simTime\<close>.\<close>

definition close_busy_interval :: "market_params \<Rightarrow> supermarket \<Rightarrow> stats" where
  "close_busy_interval params s =
     (case cashierBusyStart s of
        None \<Rightarrow> stats s
      | Some b \<Rightarrow>
          (stats s)\<lparr>cashierBusyTime := cashierBusyTime (stats s) + (simTime params - b)\<rparr>)"

definition Supermarket_RunSim ::
  "market_params \<Rightarrow> random_source \<Rightarrow> nat \<Rightarrow> (error + stats) option" where
  "Supermarket_RunSim params rs fuel =
     (case Supermarket_start params of
        Inl e \<Rightarrow> Some (Inl e)
      | Inr s \<Rightarrow>
          (case Supermarket_run params rs fuel s of
             None \<Rightarrow> None
           | Some (Inl e) \<Rightarrow> Some (Inl e)
           | Some (Inr s') \<Rightarrow> Some (Inr (close_busy_interval params s'))))"

section \<open>Reachable states\<close>

text \<open>The states of a run: the state in which \<open>env.run\<close> starts stepping, and
  every state a step leaves behind, the one of the \<open>until\<close> event included.\<close>

inductive Library_reachable :: "lib_params \<Rightarrow> random_source \<Rightarrow> library \<Rightarrow> bool"
  for params :: lib_params and rs :: random_source where
  lib_start: "Library_start params = Inr s \<Longrightarrow> Library_reachable params rs s"
| lib_running: "Library_reachable params rs s \<Longrightarrow> Library_step params rs s = Running s'
     \<Longrightarrow> Library_reachable params rs s'"
| lib_stopped: "Library_reachable params rs s \<Longrightarrow> Library_step params rs s = Stopped s'
     \<Longrightarrow> Library_reachable params rs s'"

inductive Supermarket_reachable :: "market_params \<Rightarrow> random_source \<Rightarrow> supermarket \<Rightarrow> bool"
  for params :: market_params and rs :: random_source where
  market_start: "Supermarket_start params = Inr s \<Longrightarrow> Supermarket_reachable params rs s"
| market_running: "Supermarket_reachable params rs s
     \<Longrightarrow> Supermarket_step params rs s = Running s' \<Longrightarrow> Supermarket_reachable params rs s'"
| market_stopped: "Supermarket_reachable params rs s
     \<Longrightarrow> Supermarket_step params rs s = Stopped s' \<Longrightarrow> Supermarket_reachable params rs s'"

text \<open>The state in which \<open>env.run\<close> stops, before \<open>RunSim\<close> takes its result
  from it: \<open>RunSim\<close> of TaskA.py returns the statistics of that state with the marked
  busy interval closed, \<open>RunSim\<close> of TaskB.py returns its statistics as they are.\<close>

definition Supermarket_final ::
  "market_params \<Rightarrow> random_source \<Rightarrow> nat \<Rightarrow> (error + supermarket) option" where
  "Supermarket_final params rs fuel =
     (case Supermarket_start params of
        Inl e \<Rightarrow> Some (Inl e)
      | Inr s \<Rightarrow> Supermarket_run params rs fuel s)"

definition Library_final ::
  "lib_params \<Rightarrow> random_source \<Rightarrow> nat \<Rightarrow> (error + library) option" where
  "Library_final params rs fuel =
     (case Library_start params of
        Inl e \<Rightarrow> Some (Inl e)
      | Inr s \<Rightarrow> Library_run params rs fuel s)"

section \<open>Scenarios\<close>

text \<open>The float that \<open>random()\<close> must return for \<open>expovariate(1.0 / m)\<close> to be
  the gap \<open>g\<close>; it lies in [0, 1) when \<open>g / m\<close> is not negative.\<close>

definition draw_for_gap :: "real \<Rightarrow> real \<Rightarrow> real" where
  "draw_for_gap m g = 1 - exp (- (g / m))"

text \<open>
  Supermarket, one customer: the generator's first gap is 0 and its second 100 seconds;
  every \<open>random()\<close> of \<open>VisitCounters\<close> is 0.99, so no counter is visited; every
  \<open>randint\<close> returns its lower bound, so the customer buys 1 item and, at 5 seconds
  per item, is served for 5 seconds by a cashier it finds idle.
\<close>

definition shop_params :: market_params where
  "shop_params = \<lparr>simTime = 60, meanInterval = 75, payTimePerItem = 5\<rparr>"

definition lone_source :: random_source where
  "lone_source =
     \<lparr>random_draw = (\<lambda>k. if k = 0 then 0 else if k = 1 then draw_for_gap 75 100 else 99 / 100),
      randbelow_draw = (\<lambda>k. 0), gauss_draw = (\<lambda>k. 0), poisson_draw = (\<lambda>k. 0)\<rparr>"

text \<open>The same customer with the horizon at 3 seconds: the run stops while the
  customer is being served.\<close>

definition short_params :: market_params where
  "short_params = \<lparr>simTime = 3, meanInterval = 75, payTimePerItem = 5\<rparr>"

text \<open>The statistics of the run with the horizon at 60 seconds, and the state in
  which the run with the horizon at 3 seconds stops: the customer holds the cashier, its
  payment is due at 5 seconds.\<close>

definition lone_result :: stats where
  "lone_result =
     \<lparr>customersServed = 1, maxQueueLength = 1, maxBasketsInUse = 1,
      cashierBusyTime = 5, queueLengths = [(0, 1), (0, 0)], basketsInUse = 0,
      basketsHistory = [(0, 1), (5, 0)], serviceTimes = [5], waitTimes = [5],
      purchaseCounts = [1],
      customerData =
        [\<lparr>rec_id = 1, rec_arrivalTime = EnvironmentObject, rec_totalPurchases = 1,
          rec_waitTime = 5, rec_serviceTime = 5, rec_exitTime = 5\<rparr>]\<rparr>"

definition short_final :: supermarket where
  "short_final =
     \<lparr>now = 3,
      queue = [(100, NORMAL, 4, CustomerGeneratorTimeout), (5, NORMAL, 6, PaymentTimeout 0)],
      eid = 7,
      counters = [Resource 1, Resource 1, Resource 1],
      cashier = \<lparr>capacity = 1, users = [0], put_queue = []\<rparr>,
      stats = \<lparr>customersServed = 0, maxQueueLength = 1, maxBasketsInUse = 1,
               cashierBusyTime = 0, queueLengths = [(0, 1), (0, 0)], basketsInUse = 1,
               basketsHistory = [(0, 1)], serviceTimes = [5], waitTimes = [],
               purchaseCounts = [], customerData = []\<rparr>,
      currentQueueLength = 0, cashierBusyStart = Some 0,
      customers =
        [\<lparr>customerId = 1, customer_pc = Paying, counter_pos = 0,
          arrivalTime = EnvironmentObject, totalPurchases = 1, queueStartTime = 0\<rparr>],
      nextCustomerId = 2, market_drawn = 6\<rparr>"

text \<open>
  Supermarket, the burst: ten customers arrive at time 0 (ten gaps of 0, the draws
  0, 1, 6, ..., 41; the eleventh gap, draw 46, is 100 seconds), none visits a counter,
  each buys 1 item and is served for 5 seconds; the horizon is 60 seconds.
\<close>

definition burst_source :: random_source where
  "burst_source =
     \<lparr>random_draw = (\<lambda>k. if k = 46 then draw_for_gap 75 100
                          else if k \<in> {0, 1, 6, 11, 16, 21, 26, 31, 36, 41} then 0
                          else 99 / 100),
      randbelow_draw = (\<lambda>k. 0), gauss_draw = (\<lambda>k. 0), poisson_draw = (\<lambda>k. 0)\<rparr>"

text \<open>
  Library: uniform arrivals with \<open>ArrivalTime = (40, 10)\<close> and service with
  \<open>ServeTime = (180, 120)\<close>; every draw is 0, so the gaps are 30 seconds and each
  service lasts 60 seconds.  With the horizon at 100 seconds the first reader is served
  from 30 to 90; with the horizon at 50 the run stops during that service.
\<close>

definition zero_source :: random_source where
  "zero_source =
     \<lparr>random_draw = (\<lambda>k. 0), randbelow_draw = (\<lambda>k. 0), gauss_draw = (\<lambda>k. 0),
      poisson_draw = (\<lambda>k. 0)\<rparr>"

definition desk_params :: lib_params where
  "desk_params =
     \<lparr>SimTime = 100, ServeTime = (180, 120), ArrivalLaw = ContinuousUniform,
      ArrivalTime = (40, 10)\<rparr>"

definition early_params :: lib_params where
  "early_params = desk_params\<lparr>SimTime := 50\<rparr>"

text \<open>The statistics of the run with the horizon at 100 seconds (the second reader,
  who arrives at 60 and takes librarian 0, and the third, who arrives at 90, are in
  service when it stops), and the state in which the run with the horizon at 50 seconds
  stops: the first reader holds librarian 1 since 30, its service is due to end at 90.\<close>

definition desk_result :: statistic where
  "desk_result =
     \<lparr>ReaderServed = 1, TimeWaiting = [0], TimeServed = [60], MaxQueueLen = 1,
      QueueLen = [(30, 1), (30, 0), (60, 1), (60, 0), (90, 1), (90, 0)],
      LibrarianBusy = [0, 60], BooksPerReader = [1]\<rparr>"

definition early_final :: library where
  "early_final =
     \<lparr>now = 50,
      queue = [(60, NORMAL, 4, GeneratorTimeout), (90, NORMAL, 6, ReaderTimeout 0)],
      eid = 7,
      librarians = [Resource 1, \<lparr>capacity = 1, users = [0], put_queue = []\<rparr>],
      statistic = \<lparr>ReaderServed = 0, TimeWaiting = [], TimeServed = [], MaxQueueLen = 1,
                   QueueLen = [(30, 1), (30, 0)], LibrarianBusy = [0, 0],
                   BooksPerReader = []\<rparr>,
      currentQueueLen = 0,
      readers =
        [\<lparr>readerId = 1, reader_pc = ReaderServing, librarIndex = 1, queueStart = 30,
          queueWait = 0, startServe = 30\<rparr>],
      nextReaderId = 2, lib_drawn = 3\<rparr>"

definition untagged_params :: lib_params where
  "untagged_params = desk_params\<lparr>ArrivalLaw := Unrecognized ''Gamma''\<rparr>"

text \<open>The readers in service, each with its librarian and the start of the service.\<close>

definition in_service :: "library \<Rightarrow> (nat \<times> real) list" where
  "in_service s =
     map (\<lambda>r. (librarIndex r, startServe r))
       (filter (\<lambda>r. reader_pc r = ReaderServing) (readers s))"

section \<open>Invariants\<close>

subsection \<open>The invariant of the supermarket\<close>

text \<open>An event of the heap is well-formed for a table of \<open>n\<close> customers when the
  process it resumes is in the table and the counter it releases is one of the three.\<close>

fun market_event_valid :: "nat \<Rightarrow> market_event \<Rightarrow> bool" where
  "market_event_valid n (CustomerInit p) = (p < n)"
| "market_event_valid n (CounterRequest p) = (p < n)"
| "market_event_valid n (SelectionTimeout p) = (p < n)"
| "market_event_valid n (CashierRequest p) = (p < n)"
| "market_event_valid n (PaymentTimeout p) = (p < n)"
| "market_event_valid n (CounterRelease i) = (i < 3)"
| "market_event_valid n e = True"

text \<open>A customer holds a basket from the start of its process to its completion.\<close>

definition in_store :: "customer \<Rightarrow> bool" where
  "in_store c = (customer_pc c \<noteq> CustomerCreated \<and> customer_pc c \<noteq> CustomerCompleted)"

text \<open>The number of entries of a list with a property, and the greatest value of a
  queue-length log, taken over the values and 0.\<close>

definition count_where :: "('a \<Rightarrow> bool) \<Rightarrow> 'a list \<Rightarrow> int" where
  "count_where P xs = int (length (filter P xs))"

definition log_max :: "(real \<times> int) list \<Rightarrow> int" where
  "log_max xs = Max (insert 0 (snd ` set xs))"

text \<open>Well-formedness: three counters, every position in the loop over the counters
  within the dictionary, every event of the heap well-formed, and every waiting request
  made by a process of the table.\<close>

definition market_valid :: "supermarket \<Rightarrow> bool" where
  "market_valid s =
     (length (counters s) = 3
      \<and> (\<forall>p < length (customers s). counter_pos (customers s ! p) < 3)
      \<and> (\<forall>t pr i e. (t, pr, i, e) \<in> set (queue s)
            \<longrightarrow> market_event_valid (length (customers s)) e)
      \<and> (\<forall>i < 3. \<forall>p \<in> set (put_queue (counters s ! i)). p < length (customers s))
      \<and> (\<forall>p \<in> set (put_queue (cashier s)). p < length (customers s)))"

text \<open>The counters of the statistics against the table of the processes: the queue
  length counts the customers suspended at the request of the cashier, the basket
  occupancy the customers in the store, the served count the completed customers and the
  length of each list of samples.\<close>

definition market_counts :: "supermarket \<Rightarrow> bool" where
  "market_counts s =
     (currentQueueLength s = count_where (\<lambda>c. customer_pc c = AtCashier) (customers s)
      \<and> basketsInUse (stats s) = count_where in_store (customers s)
      \<and> customersServed (stats s)
          = count_where (\<lambda>c. customer_pc c = CustomerCompleted) (customers s)
      \<and> customersServed (stats s) = int (length (waitTimes (stats s)))
      \<and> customersServed (stats s) = int (length (purchaseCounts (stats s)))
      \<and> customersServed (stats s) = int (length (customerData (stats s))))"

text \<open>The running maximum against the log of the queue length.\<close>

definition market_log :: "supermarket \<Rightarrow> bool" where
  "market_log s =
     (maxQueueLength (stats s) = log_max (queueLengths (stats s))
      \<and> (\<forall>x \<in> set (queueLengths (stats s)). 0 \<le> snd x))"

definition market_stats :: "supermarket \<Rightarrow> bool" where
  "market_stats s = (market_counts s \<and> market_log s)"

text \<open>The state in which the running process \<open>pid\<close> is taken to be at \<open>pc\<close>;
  it states what holds while \<open>VisitCounters\<close> runs, before the process is suspended
  again.\<close>

definition with_pc :: "nat \<Rightarrow> customer_pc \<Rightarrow> supermarket \<Rightarrow> supermarket" where
  "with_pc pid pc s = set_customer pid ((customers s ! pid)\<lparr>customer_pc := pc\<rparr>) s"

text \<open>Time: no event of the heap lies in the past, the \<open>until\<close> event lies at
  \<open>simTime\<close>, and the busy time credited so far ends before the open interval starts
  (or before the current time when none is open).\<close>

definition market_time :: "market_params \<Rightarrow> supermarket \<Rightarrow> bool" where
  "market_time params s =
     ((\<forall>t pr i e. (t, pr, i, e) \<in> set (queue s)
         \<longrightarrow> now s \<le> t \<and> (e = MarketUntil \<longrightarrow> t = simTime params))
      \<and> (cashierBusyStart s = None \<longrightarrow> cashierBusyTime (stats s) \<le> now s)
      \<and> (\<forall>b. cashierBusyStart s = Some b
            \<longrightarrow> cashierBusyTime (stats s) \<le> b \<and> b \<le> now s))"

definition market_inv :: "market_params \<Rightarrow> supermarket \<Rightarrow> bool" where
  "market_inv params s = (market_valid s \<and> market_stats s \<and> market_time params s)"

subsection \<open>The invariant of the library\<close>

text \<open>The process an event of the heap resumes, and what must hold of that process
  while the event is in the heap: a process to be initialised has not started, a process
  whose request was granted is suspended at \<open>yield req\<close>, chose that librarian and
  holds its slot, a process in a service timeout is being served.\<close>

fun lib_event_pid :: "lib_event \<Rightarrow> nat option" where
  "lib_event_pid (ReaderInit p) = Some p"
| "lib_event_pid (ReaderRequest i p) = Some p"
| "lib_event_pid (ReaderTimeout p) = Some p"
| "lib_event_pid e = None"

fun lib_event_ok :: "reader list \<Rightarrow> resource list \<Rightarrow> lib_event \<Rightarrow> bool" where
  "lib_event_ok rds libs (ReaderInit p) =
     (p < length rds \<and> reader_pc (rds ! p) = ReaderCreated)"
| "lib_event_ok rds libs (ReaderRequest i p) =
     (p < length rds \<and> reader_pc (rds ! p) = ReaderWaiting \<and> librarIndex (rds ! p) = i
      \<and> i < 2 \<and> p \<in> set (users (libs ! i)))"
| "lib_event_ok rds libs (ReaderTimeout p) =
     (p < length rds \<and> reader_pc (rds ! p) = ReaderServing)"
| "lib_event_ok rds libs (LibrarianRelease i) = (i < 2)"
| "lib_event_ok rds libs e = True"

text \<open>The number of events in the heap that resume process \<open>p\<close>.\<close>

definition heap_count :: "lib_event entry list \<Rightarrow> nat \<Rightarrow> nat" where
  "heap_count q p = length (filter (\<lambda>x. lib_event_pid (snd (snd (snd x))) = Some p) q)"

text \<open>The parts of the control invariant: two librarians of capacity 1 with at most
  one user; well-formed events; every process awaited by at most one event or queue
  position; the queued processes suspended at the request of that librarian; a process
  being served holds its librarian, whose busy time ends before the service started.\<close>

definition caps_ok :: "resource list \<Rightarrow> bool" where
  "caps_ok libs =
     (length libs = 2
      \<and> (\<forall>i < 2. capacity (libs ! i) = 1 \<and> length (users (libs ! i)) \<le> 1))"

definition events_ok :: "reader list \<Rightarrow> resource list \<Rightarrow> lib_event entry list \<Rightarrow> bool" where
  "events_ok rds libs q =
     (\<forall>t pr i e. (t, pr, i, e) \<in> set q \<longrightarrow> lib_event_ok rds libs e)"

definition unique_ok :: "lib_event entry list \<Rightarrow> resource list \<Rightarrow> bool" where
  "unique_ok q libs =
     (\<forall>p. heap_count q p + count_list (put_queue (libs ! 0)) p
            + count_list (put_queue (libs ! 1)) p \<le> 1)"

definition queues_ok :: "reader list \<Rightarrow> resource list \<Rightarrow> bool" where
  "queues_ok rds libs =
     (\<forall>i < 2. \<forall>p \<in> set (put_queue (libs ! i)).
        p < length rds \<and> reader_pc (rds ! p) = ReaderWaiting \<and> librarIndex (rds ! p) = i)"

definition serving_ok :: "reader list \<Rightarrow> resource list \<Rightarrow> real list \<Rightarrow> bool" where
  "serving_ok rds libs busy =
     (\<forall>p < length rds. reader_pc (rds ! p) = ReaderServing
        \<longrightarrow> librarIndex (rds ! p) < 2
          \<and> p \<in> set (users (libs ! librarIndex (rds ! p)))
          \<and> busy ! librarIndex (rds ! p) \<le> startServe (rds ! p))"

definition control_ok ::
  "reader list \<Rightarrow> lib_event entry list \<Rightarrow> resource list \<Rightarrow> real list \<Rightarrow> bool" where
  "control_ok rds q libs busy =
     (length busy = 2 \<and> caps_ok libs \<and> events_ok rds libs q \<and> unique_ok q libs
      \<and> queues_ok rds libs \<and> serving_ok rds libs busy)"

text \<open>Process \<open>p\<close> is awaited by no event and stands in no queue: the state of the
  process that is running.\<close>

definition idle :: "lib_event entry list \<Rightarrow> resource list \<Rightarrow> nat \<Rightarrow> bool" where
  "idle q libs p =
     (heap_count q p = 0 \<and> p \<notin> set (put_queue (libs ! 0)) \<and> p \<notin> set (put_queue (libs ! 1)))"

definition lib_control :: "library \<Rightarrow> bool" where
  "lib_control s =
     control_ok (readers s) (queue s) (librarians s) (LibrarianBusy (statistic s))"

text \<open>Time: no event of the heap lies in the past, the \<open>until\<close> event lies at
  \<open>SimTime\<close>, and no librarian has been busy for longer than the time that has
  passed.\<close>

definition lib_time :: "lib_params \<Rightarrow> library \<Rightarrow> bool" where
  "lib_time params s =
     ((\<forall>t pr i e. (t, pr, i, e) \<in> set (queue s)
         \<longrightarrow> now s \<le> t \<and> (e = LibraryUntil \<longrightarrow> t = SimTime params))
      \<and> (\<forall>i < 2. LibrarianBusy (statistic s) ! i \<le> now s))"

text \<open>The counters of the statistics against the table of the processes, and the
  running maximum against the log of the queue length.\<close>

definition lib_stats :: "library \<Rightarrow> bool" where
  "lib_stats s =
     (currentQueueLen s = count_where (\<lambda>r. reader_pc r = ReaderWaiting) (readers s)
      \<and> ReaderServed (statistic s)
          = count_where (\<lambda>r. reader_pc r = ReaderCompleted) (readers s)
      \<and> ReaderServed (statistic s) = int (length (TimeWaiting (statistic s)))
      \<and> ReaderServed (statistic s) = int (length (TimeServed (statistic s)))
      \<and> ReaderServed (statistic s) = int (length (BooksPerReader (statistic s)))
      \<and> MaxQueueLen (statistic s) = log_max (QueueLen (statistic s))
      \<and> (\<forall>x \<in> set (QueueLen (statistic s)). 0 \<le> snd x))"

definition lib_inv :: "lib_params \<Rightarrow> library \<Rightarrow> bool" where
  "lib_inv params s = (lib_control s \<and> lib_time params s \<and> lib_stats s)"

section \<open>Properties\<close>

subsection \<open>The choice of the librarian\<close>

text \<open>
  C1 (as amended).  When both librarians have the same load \<open>count + len(queue)\<close>,
  the index is decided by the test \<open>LibrarianBusy[0] < LibrarianBusy[1]\<close> of line 34
  alone.  With the same cumulative busy time as well the test is false and the reader
  takes librarian index 1.  On equal loads index 0 is taken only when librarian 0 has
  been strictly less busy, and it is taken then; in every other case the index is 1.
\<close>

theorem tie_selects_second_librarian:
  assumes "librarLoad (libs ! 0) = librarLoad (libs ! 1)"
  shows "(busy ! 0 = busy ! 1 \<longrightarrow> select_librarIndex libs busy = 1)
    \<and> (select_librarIndex libs busy = 0 \<longleftrightarrow> busy ! 0 < busy ! 1)
    \<and> select_librarIndex libs busy = (if busy ! 0 < busy ! 1 then 0 else 1)"
  using assms by (simp add: select_librarIndex_def)

text \<open>The theorem in the first state of a run (both librarians idle, both busy times
  0: index 1), and with the same idle librarians after librarian 1 alone has served for
  60 seconds (index 0).\<close>

theorem tie_selects_second_librarian_witness:
  "librarLoad (librarians Library ! 0) = librarLoad (librarians Library ! 1)
   \<and> LibrarianBusy (statistic Library) ! 0 = LibrarianBusy (statistic Library) ! 1
   \<and> select_librarIndex (librarians Library) (LibrarianBusy (statistic Library)) = 1
   \<and> [0, 60 :: real] ! 0 < [0, 60] ! 1
   \<and> select_librarIndex (librarians Library) [0, 60] = 0"
proof -
  have loads: "librarLoad (librarians Library ! 0) = librarLoad (librarians Library ! 1)"
    by (simp add: Library_def)
  have busy: "LibrarianBusy (statistic Library) ! 0 = LibrarianBusy (statistic Library) ! 1"
    by (simp add: Library_def)
  have less: "[0, 60 :: real] ! 0 < [0, 60] ! 1"
    by simp
  note t = tie_selects_second_librarian [OF loads]
  note t1 = t [where busy = "LibrarianBusy (statistic Library)", THEN conjunct1, rule_format,
      OF busy]
  note t2 = t [where busy = "[0, 60]", THEN conjunct2, THEN conjunct1, THEN iffD2, OF less]
  show ?thesis
    by (intro conjI loads busy t1 less t2)
qed

text \<open>The claim as stated fails in the very first state of a run: both librarians
  idle, both busy times 0, and the index chosen is not 0.\<close>

theorem idle_tie_not_index_0:
  "select_librarIndex (librarians Library) (LibrarianBusy (statistic Library)) \<noteq> 0"
  by (simp add: select_librarIndex_def Library_def)

subsection \<open>Evaluating runs\<close>

lemmas kernel_defs =
  schedule_def heappop_def continue_def timeout_def URGENT_def NORMAL_def request_def
  trigger_put_def release_def Resource_def randint_def uniform_def Let_def

lemmas market_defs =
  Supermarket_RunSim_def close_busy_interval_def Supermarket_start_def Supermarket_def
  Supermarket_step_def CustomerGenerator_wait_def customer_interval_def spawn_customer_def
  CustomerProcess_def CustomerProcess_start_def CustomerProcess_finish_def
  CustomerProcess_checkout_def CashierProcess_enter_def CashierProcess_granted_def
  CashierProcess_paid_def counter_request_def counter_granted_def counter_done_def
  counter_released_def cashier_released_def selectionTime_def UpdateQueueStats_def
  UpdateBasketStats_def set_customer_def COUNTERSDATA_def

lemmas lib_defs =
  Library_RunSim_def Library_start_def Library_def Library_step_def generator_wait_def
  generator_arrive_def uniform_interval_def spawn_reader_def ReaderProcess_def
  reader_start_def reader_granted_def reader_served_def librarian_released_def
  select_librarIndex_def librarLoad_def Library_UpdateQueueStats_def serve_interval_def

lemma Supermarket_run_numeral:
  "Supermarket_run params rs (numeral k) s =
     (case Supermarket_step params rs s of
        Running s' \<Rightarrow> Supermarket_run params rs (pred_numeral k) s'
      | Stopped s' \<Rightarrow> Some (Inr s')
      | Failed e \<Rightarrow> Some (Inl e))"
  by (simp add: numeral_eq_Suc)

lemma Library_run_numeral:
  "Library_run params rs (numeral k) s =
     (case Library_step params rs s of
        Running s' \<Rightarrow> Library_run params rs (pred_numeral k) s'
      | Stopped s' \<Rightarrow> Some (Inr s')
      | Failed e \<Rightarrow> Some (Inl e))"
  by (simp add: numeral_eq_Suc)

lemma expovariate_gap: "m \<noteq> 0 \<Longrightarrow> expovariate (1 / m) (draw_for_gap m g) = g"
  by (simp add: expovariate_def draw_for_gap_def)

lemma expovariate_zero: "expovariate lambd 0 = 0"
  by (simp add: expovariate_def)

lemma draw_for_gap_range: "0 < m \<Longrightarrow> 0 \<le> g \<Longrightarrow> 0 \<le> draw_for_gap m g \<and> draw_for_gap m g < 1"
  by (simp add: draw_for_gap_def)

lemma lone_customer_run:
  "Supermarket_RunSim shop_params lone_source 20 =
     Some (Inr \<lparr>customersServed = 1, maxQueueLength = 1, maxBasketsInUse = 1,
                 cashierBusyTime = 5, queueLengths = [(0, 1), (0, 0)], basketsInUse = 0,
                 basketsHistory = [(0, 1), (5, 0)], serviceTimes = [5], waitTimes = [5],
                 purchaseCounts = [1],
                 customerData =
                   [\<lparr>rec_id = 1, rec_arrivalTime = EnvironmentObject,
                     rec_totalPurchases = 1, rec_waitTime = 5, rec_serviceTime = 5,
                     rec_exitTime = 5\<rparr>]\<rparr>)"
  by (simp add: market_defs kernel_defs Supermarket_run_numeral expovariate_gap
      expovariate_zero lone_source_def shop_params_def)

lemma burst_run:
  "map_option (map_sum id (\<lambda>st. (customersServed st, waitTimes st, serviceTimes st,
       cashierBusyTime st, maxQueueLength st)))
     (Supermarket_RunSim shop_params burst_source 100) =
   Some (Inr (10, [5, 10, 15, 20, 25, 30, 35, 40, 45, 50], [5, 5, 5, 5, 5, 5, 5, 5, 5, 5],
              5, 9))"
  by (simp add: market_defs kernel_defs Supermarket_run_numeral expovariate_gap
      expovariate_zero burst_source_def shop_params_def)

subsection \<open>The recorded wait time at the checkout\<close>

text \<open>
  C2.  The claim: the recorded wait is the time queued before the resource is granted,
  0 for a customer who finds the cashier idle, and (k - 1) * 5 seconds for the k-th
  customer of the burst.  \<open>CustomerProcess\<close> reads the clock before and after the
  whole of \<open>CashierProcess\<close>, payment included (lines 57 to 59), so the recorded
  wait is the queueing time plus the service time: 5 seconds for the lone customer who
  finds the cashier idle, and k * 5 seconds for the k-th customer of the burst.
\<close>

theorem checkout_wait_includes_service:
  "map_option (map_sum id waitTimes) (Supermarket_RunSim shop_params lone_source 20)
     = Some (Inr [5])
   \<and> map_option (map_sum id waitTimes) (Supermarket_RunSim shop_params burst_source 100)
     = Some (Inr [5, 10, 15, 20, 25, 30, 35, 40, 45, 50])"
proof -
  obtain r where r: "Supermarket_RunSim shop_params burst_source 100 = r"
    by simp
  from burst_run have "map_option (map_sum id waitTimes) r
      = Some (Inr [5, 10, 15, 20, 25, 30, 35, 40, 45, 50])"
    unfolding r by (cases r; cases "the r") auto
  then show ?thesis
    by (simp add: r lone_customer_run)
qed

subsection \<open>The busy time of the cashier in the burst\<close>

text \<open>
  C3.  The claim: the busy time of the checkout is the total time with a customer
  at the cashier, 50 seconds for ten customers served back to back for 5 seconds each.
  \<open>CashierProcess\<close> marks the start of the interval when a customer joins the queue
  and no start is marked (line 106), and closes the interval after every payment
  (lines 120 to 122).  In the burst all ten customers join at time 0, the first payment
  closes the interval at 5 seconds, and nothing marks a start for the nine services that
  follow: the run reports 5 seconds, although it served for 50.
\<close>

theorem burst_busy_time_is_5:
  "map_option (map_sum id (\<lambda>st. (cashierBusyTime st, sum_list (serviceTimes st))))
     (Supermarket_RunSim shop_params burst_source 100) = Some (Inr (5, 50))"
proof -
  obtain r where r: "Supermarket_RunSim shop_params burst_source 100 = r"
    by simp
  from burst_run show ?thesis
    unfolding r by (cases r; cases "the r") auto
qed

subsection \<open>The arrival time in the record of a customer\<close>

text \<open>
  C6.  The claim: the record of an entity holds its arrival time, the reading of the
  clock when its process started.  Line 48 assigns \<open>self.env\<close>, the Environment
  object, not \<open>self.env.now\<close>: the record of the lone customer, who arrived at
  time 0, holds the object where the number 0 is expected.
\<close>

theorem arrival_time_is_the_environment:
  "map_option (map_sum id (\<lambda>st. map rec_arrivalTime (customerData st)))
     (Supermarket_RunSim shop_params lone_source 20) = Some (Inr [EnvironmentObject])"
  by (simp add: lone_customer_run)

subsection \<open>An unrecognized arrival law\<close>

text \<open>
  C5 (as amended).  With an unrecognized arrival-law tag and a positive horizon no error
  is reported: the generator takes no branch and ends, no reader arrives, and after
  three steps (the generator's Initialize event, the event of the ended generator, the
  \<open>until\<close> event) \<open>RunSim\<close> returns the statistics as they were initialised.
\<close>

theorem unrecognized_law_runs_without_arrivals:
  "ArrivalLaw params = Unrecognized tag \<Longrightarrow> 0 < SimTime params
     \<Longrightarrow> Library_RunSim params rs (Suc (Suc (Suc n))) = Some (Inr (statistic Library))"
  by (simp add: lib_defs kernel_defs)

theorem unrecognized_law_runs_without_arrivals_witness:
  "ArrivalLaw untagged_params = Unrecognized ''Gamma'' \<and> 0 < SimTime untagged_params
   \<and> Library_RunSim untagged_params zero_source 3 = Some (Inr (statistic Library))"
proof -
  have law: "ArrivalLaw untagged_params = Unrecognized ''Gamma''"
    by (simp add: untagged_params_def)
  have horizon: "0 < SimTime untagged_params"
    by (simp add: untagged_params_def desk_params_def)
  from unrecognized_law_runs_without_arrivals [OF law horizon, of zero_source 0] law horizon
  show ?thesis by (simp add: numeral_3_eq_3)
qed

text \<open>The claim as stated fails: with the tag \<open>Gamma\<close> the run reports no error
  and returns the statistics of a run without arrivals.\<close>

theorem unrecognized_law_no_error:
  "Library_RunSim untagged_params zero_source 3 =
     Some (Inr \<lparr>ReaderServed = 0, TimeWaiting = [], TimeServed = [], MaxQueueLen = 0,
                 QueueLen = [], LibrarianBusy = [0, 0], BooksPerReader = []\<rparr>)"
  by (simp add: lib_defs kernel_defs untagged_params_def desk_params_def numeral_3_eq_3)

subsection \<open>Sampled delays\<close>

lemma uniform_ge:
  assumes "0 \<le> u" "u < 1" "c \<le> a" "c \<le> b"
  shows "c \<le> uniform a b u"
proof -
  have "uniform a b u = (1 - u) * a + u * b"
    by (simp add: uniform_def algebra_simps)
  moreover have "(1 - u) * c \<le> (1 - u) * a" "u * c \<le> u * b"
    using assms by (auto intro: mult_left_mono)
  moreover have "c = (1 - u) * c + u * c"
    by (simp add: algebra_simps)
  ultimately show ?thesis by linarith
qed

lemma expovariate_nonneg:
  assumes "0 \<le> u" "u < 1" "0 < lambd"
  shows "0 \<le> expovariate lambd u"
proof -
  have "ln (1 - u) \<le> 0" using assms by simp
  then have "ln (1 - u) / lambd \<le> 0"
    using assms by (simp add: divide_nonpos_pos)
  then show ?thesis by (simp add: expovariate_def)
qed

text \<open>
  C7 (as amended).  For every float \<open>u\<close> of \<open>random()\<close>, a number in [0, 1):
  the service time of the library and the gap of its uniform law are at least 1 second
  (when base + spread is at least 1), the gap of the normal law is at least 0.1 second, and
  the selection times at the three configured counters are at least 60 seconds (the
  lower bound of their range is clamped to 0, line 88).  The exponential gaps of the
  library (\<open>TaskB.py\<close>, line 69) and of the supermarket (\<open>TaskA.py\<close>, line 135) are
  not clamped: with a positive mean they are not negative, and with any mean other than
  0 they are exactly 0 when \<open>random()\<close> returns 0 (a mean of 0 raises
  \<open>ZeroDivisionError\<close>).  \<open>env.timeout\<close> accepts exactly the delays that are not
  negative.
\<close>

theorem delay_bounds:
  assumes "0 \<le> u" and "u < 1"
  shows "(1 \<le> fst (ServeTime lp) + snd (ServeTime lp) \<longrightarrow> 1 \<le> serve_interval lp u)
    \<and> (1 \<le> fst (ArrivalTime lp) + snd (ArrivalTime lp) \<longrightarrow> 1 \<le> uniform_interval lp u)
    \<and> 1 / 10 \<le> normal_interval lp z
    \<and> (0 < fst (ArrivalTime lp) \<longrightarrow>
          (\<exists>g. exponential_interval lp u = Inr g \<and> 0 \<le> g))
    \<and> exponential_interval lp 0
          = (if fst (ArrivalTime lp) = 0 then Inl ZeroDivisionError else Inr 0)
    \<and> (\<forall>c \<in> set COUNTERSDATA. 60 \<le> selectionTime (snd c) u)
    \<and> (0 < meanInterval mp \<longrightarrow> (\<exists>g. customer_interval mp u = Inr g \<and> 0 \<le> g))
    \<and> customer_interval mp 0 = (if meanInterval mp = 0 then Inl ZeroDivisionError else Inr 0)
    \<and> (\<forall>d. (\<exists>env'. timeout e d env = Inr env') \<longleftrightarrow> 0 \<le> d)"
proof (intro conjI impI allI ballI)
  show "1 \<le> serve_interval lp u" if "1 \<le> fst (ServeTime lp) + snd (ServeTime lp)"
    using that assms by (auto simp: serve_interval_def split: prod.splits intro!: uniform_ge)
  show "1 \<le> uniform_interval lp u" if "1 \<le> fst (ArrivalTime lp) + snd (ArrivalTime lp)"
    using that assms by (auto simp: uniform_interval_def split: prod.splits intro!: uniform_ge)
  show "1 / 10 \<le> normal_interval lp z"
    unfolding normal_interval_def
    by (cases "ArrivalTime lp") (simp only: prod.case max.cobounded1)
  show "\<exists>g. exponential_interval lp u = Inr g \<and> 0 \<le> g" if "0 < fst (ArrivalTime lp)"
    using that assms by (simp add: exponential_interval_def expovariate_nonneg)
  show "exponential_interval lp 0
      = (if fst (ArrivalTime lp) = 0 then Inl ZeroDivisionError else Inr 0)"
    by (simp add: exponential_interval_def expovariate_def)
  show "60 \<le> selectionTime (snd c) u" if "c \<in> set COUNTERSDATA" for c
    using that assms by (auto simp: COUNTERSDATA_def selectionTime_def intro!: uniform_ge)
  show "\<exists>g. customer_interval mp u = Inr g \<and> 0 \<le> g" if "0 < meanInterval mp"
    using that assms by (simp add: customer_interval_def expovariate_nonneg)
  show "customer_interval mp 0 = (if meanInterval mp = 0 then Inl ZeroDivisionError else Inr 0)"
    by (simp add: customer_interval_def expovariate_def)
  show "(\<exists>env'. timeout e d env = Inr env') \<longleftrightarrow> 0 \<le> d" for d
    by (auto simp: timeout_def)
qed

text \<open>The theorem at the draw 0, for the library with service time 180 and spread 120 and
  arrival parameters (40, 10) and the supermarket with a mean gap of 75 seconds.\<close>

theorem delay_bounds_witness:
  "(0::real) \<le> 0 \<and> (0::real) < 1
   \<and> 1 \<le> fst (ServeTime desk_params) + snd (ServeTime desk_params)
   \<and> 1 \<le> serve_interval desk_params 0
   \<and> 1 \<le> fst (ArrivalTime desk_params) + snd (ArrivalTime desk_params)
   \<and> 1 \<le> uniform_interval desk_params 0
   \<and> 1 / 10 \<le> normal_interval desk_params 0
   \<and> 0 < fst (ArrivalTime desk_params)
   \<and> (\<exists>g. exponential_interval desk_params 0 = Inr g \<and> 0 \<le> g)
   \<and> exponential_interval desk_params 0 = Inr 0
   \<and> COUNTERSDATA ! 0 \<in> set COUNTERSDATA
   \<and> 60 \<le> selectionTime (snd (COUNTERSDATA ! 0)) 0
   \<and> 0 < meanInterval shop_params
   \<and> (\<exists>g. customer_interval shop_params 0 = Inr g \<and> 0 \<le> g)
   \<and> customer_interval shop_params 0 = Inr 0
   \<and> (\<exists>env'. timeout CustomerGeneratorTimeout 0 Supermarket = Inr env')"
proof -
  have u: "(0::real) \<le> 0" "(0::real) < 1"
    by simp_all
  have serve: "1 \<le> fst (ServeTime desk_params) + snd (ServeTime desk_params)"
    by (simp add: desk_params_def)
  have arrive: "1 \<le> fst (ArrivalTime desk_params) + snd (ArrivalTime desk_params)"
    by (simp add: desk_params_def)
  have gap: "0 < fst (ArrivalTime desk_params)"
    by (simp add: desk_params_def)
  have gap': "fst (ArrivalTime desk_params) \<noteq> 0"
    by (simp add: desk_params_def)
  have counter: "COUNTERSDATA ! 0 \<in> set COUNTERSDATA"
    by (simp add: COUNTERSDATA_def)
  have mean: "0 < meanInterval shop_params"
    by (simp add: shop_params_def)
  have mean': "meanInterval shop_params \<noteq> 0"
    by (simp add: shop_params_def)
  have zero: "(0::real) \<le> 0"
    by simp
  note b = delay_bounds [OF u, where lp = desk_params and z = 0 and mp = shop_params
      and e = CustomerGeneratorTimeout and env = Supermarket]
  note b1 = b [THEN conjunct1, rule_format, OF serve]
  note c1 = b [THEN conjunct2]
  note b2 = c1 [THEN conjunct1, rule_format, OF arrive]
  note c2 = c1 [THEN conjunct2]
  note b3 = c2 [THEN conjunct1]
  note c3 = c2 [THEN conjunct2]
  note b4 = c3 [THEN conjunct1, rule_format, OF gap]
  note c4 = c3 [THEN conjunct2]
  note b5 = c4 [THEN conjunct1]
  note c5 = c4 [THEN conjunct2]
  note b6 = c5 [THEN conjunct1, rule_format, OF counter]
  note c6 = c5 [THEN conjunct2]
  note b7 = c6 [THEN conjunct1, rule_format, OF mean]
  note c7 = c6 [THEN conjunct2]
  note b8 = c7 [THEN conjunct1]
  note b9 = c7 [THEN conjunct2, rule_format, THEN iffD2, OF zero]
  from b5 gap' have b5': "exponential_interval desk_params 0 = Inr 0"
    by (simp only: if_False)
  from b8 mean' have b8': "customer_interval shop_params 0 = Inr 0"
    by (simp only: if_False)
  show ?thesis
    by (intro conjI u serve b1 arrive b2 b3 gap b4 b5' counter b6 mean b7 b8' b9)
qed

text \<open>The claim as stated fails in the first step of the lone-customer run: the first
  float of the source is 0, the gap is 0, and the generator's timeout is scheduled with
  a delay of 0.\<close>

theorem zero_delay_is_scheduled:
  "random_draw lone_source 0 = 0
   \<and> CustomerGenerator_wait shop_params lone_source Supermarket
       = Inr (schedule CustomerGeneratorTimeout NORMAL 0 (Supermarket\<lparr>market_drawn := 1\<rparr>))"
  by (simp add: CustomerGenerator_wait_def customer_interval_def expovariate_zero timeout_def
      lone_source_def shop_params_def Supermarket_def)

subsection \<open>Lists, the heap and resources\<close>

lemma count_where_update:
  "i < length xs \<Longrightarrow>
     count_where P (xs[i := y]) =
       count_where P xs - (if P (xs ! i) then 1 else 0) + (if P y then 1 else 0)"
proof (induction xs arbitrary: i)
  case Nil
  then show ?case by simp
next
  case (Cons x xs)
  show ?case
  proof (cases i)
    case 0
    then show ?thesis by (simp add: count_where_def)
  next
    case (Suc n)
    with Cons.prems have "n < length xs" by simp
    from Cons.IH [OF this] show ?thesis
      using Suc by (auto simp: count_where_def split: if_splits)
  qed
qed

lemma count_where_append [simp]:
  "count_where P (xs @ [y]) = count_where P xs + (if P y then 1 else 0)"
  by (simp add: count_where_def)

lemma count_where_nonneg [simp]: "0 \<le> count_where P xs"
  by (simp add: count_where_def)

lemma count_where_pos:
  assumes "i < length xs" and "P (xs ! i)"
  shows "1 \<le> count_where P xs"
proof -
  from assms have "xs ! i \<in> set (filter P xs)" by simp
  then have "filter P xs \<noteq> []" by force
  then have "0 < length (filter P xs)" by (cases "filter P xs") auto
  then show ?thesis unfolding count_where_def by linarith
qed

lemma log_max_append [simp]: "log_max (xs @ [(t, v)]) = max (log_max xs) v"
proof -
  have "Max (insert v (insert 0 (snd ` set xs))) = max v (Max (insert 0 (snd ` set xs)))"
    by (rule Max_insert) auto
  then show ?thesis
    by (simp add: log_max_def insert_commute max.commute)
qed

lemma log_max_Nil [simp]: "log_max [] = 0"
  by (simp add: log_max_def)

lemma least_entry_mem: "least_entry m xs \<in> set (m # xs)"
  by (induction xs arbitrary: m) auto

lemma entry_before_time: "\<not> entry_before x m \<Longrightarrow> fst m \<le> fst x"
  by (cases x; cases m) auto

lemma entry_before_time': "entry_before x m \<Longrightarrow> fst x \<le> fst m"
  by (cases x; cases m) auto

lemma least_entry_le: "x \<in> set (m # xs) \<Longrightarrow> fst (least_entry m xs) \<le> fst x"
proof (induction xs arbitrary: m x)
  case Nil
  then show ?case by simp
next
  case (Cons y ys)
  let ?m' = "if entry_before y m then y else m"
  have m': "fst ?m' \<le> fst m" "fst ?m' \<le> fst y"
    by (auto dest: entry_before_time entry_before_time')
  from Cons.prems consider "x = m" | "x = y" | "x \<in> set ys"
    by auto
  then show ?case
  proof cases
    case 1
    have "fst (least_entry ?m' ys) \<le> fst ?m'"
      using Cons.IH [of ?m' ?m'] by simp
    with m' 1 show ?thesis by simp
  next
    case 2
    have "fst (least_entry ?m' ys) \<le> fst ?m'"
      using Cons.IH [of ?m' ?m'] by simp
    with m' 2 show ?thesis by simp
  next
    case 3
    then have "fst (least_entry ?m' ys) \<le> fst x"
      using Cons.IH [of x ?m'] by simp
    then show ?thesis by simp
  qed
qed

lemma heappop_Some:
  assumes "heappop s = Some (m, s')"
  shows "m \<in> set (queue s)" and "s' = s\<lparr>now := fst m, queue := remove1 m (queue s)\<rparr>"
    and "\<forall>x \<in> set (queue s). fst m \<le> fst x"
proof -
  from assms obtain x xs where q: "queue s = x # xs" and m: "m = least_entry x xs"
    and s': "s' = s\<lparr>now := fst m, queue := remove1 m (queue s)\<rparr>"
    by (auto simp: heappop_def Let_def split: list.splits)
  from q m show "m \<in> set (queue s)"
    using least_entry_mem [of x xs] by simp
  from s' show "s' = s\<lparr>now := fst m, queue := remove1 m (queue s)\<rparr>" .
  from q m show "\<forall>x \<in> set (queue s). fst m \<le> fst x"
    using least_entry_le [of _ x xs] by simp
qed

lemma in_set_updateD: "r \<in> set (xs[i := y]) \<Longrightarrow> r = y \<or> r \<in> set xs"
  using set_update_subset_insert [of xs i y] by auto

lemma trigger_putD:
  assumes "trigger_put r = (r', g)"
  shows "(\<forall>p' \<in> set (put_queue r'). p' \<in> set (put_queue r))
    \<and> capacity r' = capacity r
    \<and> (\<forall>q. g = Some q \<longrightarrow> q \<in> set (put_queue r))"
  using assms by (auto simp: trigger_put_def split: list.splits if_splits)

lemma requestD:
  assumes "request p r = (r', g)"
  shows "(\<forall>p' \<in> set (put_queue r'). p' = p \<or> p' \<in> set (put_queue r))
    \<and> capacity r' = capacity r
    \<and> (\<forall>q. g = Some q \<longrightarrow> q = p \<or> q \<in> set (put_queue r))"
proof -
  from assms have t: "trigger_put (r\<lparr>put_queue := put_queue r @ [p]\<rparr>) = (r', g)"
    by (simp add: request_def)
  from trigger_putD [OF t] show ?thesis
    by auto
qed

lemma release_put_queue [simp]: "put_queue (release p r) = put_queue r"
  by (simp add: release_def)

subsection \<open>The supermarket keeps its invariant\<close>

lemmas market_handler_defs =
  CustomerProcess_finish_def CustomerProcess_checkout_def CashierProcess_enter_def
  CashierProcess_granted_def CashierProcess_paid_def counter_request_def counter_granted_def
  counter_done_def counter_released_def cashier_released_def UpdateQueueStats_def
  UpdateBasketStats_def set_customer_def schedule_def timeout_def

lemmas market_stats_defs = market_stats_def market_counts_def market_log_def

lemma CashierProcess_enter_valid:
  assumes "market_valid s" and "pid < length (customers s)"
  shows "market_valid (CashierProcess_enter pid s)"
  using assms
  by (auto simp: market_valid_def market_handler_defs Let_def
      split: prod.splits option.splits dest!: requestD)

lemma counter_request_valid:
  assumes "market_valid s" and "pid < length (customers s)" and "i < 3" and "k < 3"
  shows "market_valid (counter_request pid k i s)"
  using assms
  by (auto simp: market_valid_def market_handler_defs Let_def nth_list_update
      split: prod.splits option.splits dest!: requestD)

lemma CashierProcess_granted_valid:
  assumes "market_valid s" and "pid < length (customers s)"
    and "CashierProcess_granted params pid s = Inr s'"
  shows "market_valid s'"
  using assms
  by (auto simp: market_valid_def market_handler_defs Let_def nth_list_update split: if_splits)

lemma CashierProcess_paid_valid:
  assumes "market_valid s" and "pid < length (customers s)"
  shows "market_valid (CashierProcess_paid pid s)"
  using assms
  by (auto simp: market_valid_def market_handler_defs Let_def split: option.splits)

lemma CustomerProcess_finish_valid:
  assumes "market_valid s" and "pid < length (customers s)"
  shows "market_valid (CustomerProcess_finish params pid s)"
  using assms
  by (auto simp: market_valid_def market_handler_defs Let_def nth_list_update)

lemma CustomerProcess_checkout_valid:
  assumes "market_valid s" and "pid < length (customers s)"
    and "CustomerProcess_checkout rs pid s = Inr s'"
  shows "market_valid s'"
proof -
  from assms(3) obtain n where s': "s' = CashierProcess_enter pid
      (set_customer pid
         ((customers s ! pid)\<lparr>totalPurchases := totalPurchases (customers s ! pid) + n,
            queueStartTime := now s, customer_pc := AtCashier\<rparr>)
         (s\<lparr>market_drawn := market_drawn s + 1\<rparr>))"
    by (auto simp: CustomerProcess_checkout_def Let_def split: sum.splits)
  have "market_valid (set_customer pid
         ((customers s ! pid)\<lparr>totalPurchases := totalPurchases (customers s ! pid) + n,
            queueStartTime := now s, customer_pc := AtCashier\<rparr>)
         (s\<lparr>market_drawn := market_drawn s + 1\<rparr>))"
    using assms(1,2) by (auto simp: market_valid_def set_customer_def nth_list_update)
  then show ?thesis
    unfolding s' using assms(2) by (intro CashierProcess_enter_valid) (simp_all add: set_customer_def)
qed

lemma COUNTERSDATA_index: "k < 3 \<Longrightarrow> fst (COUNTERSDATA ! k) - 1 < 3"
  by (auto simp: COUNTERSDATA_def nth_Cons split: nat.splits)

lemma drop_eq_ConsD:
  assumes "drop k xs = c # items"
  shows "k < length xs" and "c = xs ! k" and "items = drop (Suc k) xs"
proof -
  show k: "k < length xs"
    using assms by (cases "k < length xs") auto
  from Cons_nth_drop_Suc [OF k] assms show "c = xs ! k" and "items = drop (Suc k) xs"
    by auto
qed

lemma VisitCounters_valid:
  assumes "market_valid s" and "pid < length (customers s)"
    and "items = drop k COUNTERSDATA"
    and "VisitCounters rs pid k items s = Inr s'"
  shows "market_valid s'"
  using assms
proof (induction items arbitrary: k s)
  case Nil
  then show ?case
    by (auto intro: CustomerProcess_checkout_valid)
next
  case (Cons c items)
  obtain counterId counterData where c: "c = (counterId, counterData)"
    by (cases c)
  from drop_eq_ConsD [OF Cons.prems(3) [symmetric]]
  have k: "k < 3" and ck: "c = COUNTERSDATA ! k" and items: "items = drop (k + 1) COUNTERSDATA"
    by (simp_all add: COUNTERSDATA_def)
  let ?s1 = "s\<lparr>market_drawn := market_drawn s + 1\<rparr>"
  have valid1: "market_valid ?s1"
    using Cons.prems(1) by (simp add: market_valid_def)
  show ?case
  proof (cases "random_draw rs (market_drawn s) < probability counterData")
    case True
    with Cons.prems(4) c have s': "s' = counter_request pid k (counterId - 1) ?s1"
      by (simp add: Let_def)
    from ck c have "fst (COUNTERSDATA ! k) = counterId"
      by (metis fst_conv)
    with k have "counterId - 1 < 3"
      using COUNTERSDATA_index [of k] by simp
    with valid1 Cons.prems(2) k show ?thesis
      unfolding s' by (intro counter_request_valid) simp_all
  next
    case False
    with Cons.prems(4) c have "VisitCounters rs pid (k + 1) items ?s1 = Inr s'"
      by (simp add: Let_def)
    with valid1 Cons.prems(2) items show ?thesis
      by (intro Cons.IH [of ?s1 "k + 1"]) simp_all
  qed
qed

lemma counter_granted_valid:
  assumes "market_valid s" and "pid < length (customers s)"
    and "counter_granted rs pid s = Inr s'"
  shows "market_valid s'"
  using assms
  by (auto simp: market_valid_def market_handler_defs Let_def nth_list_update split: if_splits)

lemma counter_done_valid:
  assumes "market_valid s" and "pid < length (customers s)"
    and "counter_done rs pid s = Inr s'"
  shows "market_valid s'"
proof -
  let ?me = "customers s ! pid"
  let ?i = "fst (COUNTERSDATA ! counter_pos ?me) - 1"
  from assms(1,2) have pos: "counter_pos ?me < 3"
    by (simp add: market_valid_def)
  then have i: "?i < 3"
    by (rule COUNTERSDATA_index)
  from assms(3) obtain n where
    v: "VisitCounters rs pid (counter_pos ?me + 1) (drop (counter_pos ?me + 1) COUNTERSDATA)
          (schedule (CounterRelease ?i) NORMAL 0
             (set_customer pid (?me\<lparr>totalPurchases := totalPurchases ?me + n\<rparr>)
                (s\<lparr>market_drawn := market_drawn s + 1,
                    counters := (counters s)[?i := release pid (counters s ! ?i)]\<rparr>))) = Inr s'"
    by (auto simp: counter_done_def Let_def split: sum.splits prod.splits)
  have "market_valid (schedule (CounterRelease ?i) NORMAL 0
             (set_customer pid (?me\<lparr>totalPurchases := totalPurchases ?me + n\<rparr>)
                (s\<lparr>market_drawn := market_drawn s + 1,
                    counters := (counters s)[?i := release pid (counters s ! ?i)]\<rparr>)))"
    using assms(1,2) i
    by (auto simp: market_valid_def schedule_def set_customer_def nth_list_update
        nth_list_update)
  from this _ _ v show ?thesis
    by (rule VisitCounters_valid) (use assms(2) in \<open>auto simp: schedule_def set_customer_def\<close>)
qed

lemma counter_released_valid:
  assumes "market_valid s" and "i < 3"
  shows "market_valid (counter_released i s)"
  using assms
  by (auto simp: market_valid_def market_handler_defs Let_def nth_list_update
      split: prod.splits option.splits dest!: trigger_putD)

lemma cashier_released_valid:
  assumes "market_valid s"
  shows "market_valid (cashier_released s)"
  using assms
  by (auto simp: market_valid_def market_handler_defs Let_def
      split: prod.splits option.splits dest!: trigger_putD)

lemma CustomerProcess_start_valid:
  assumes "market_valid s" and "pid < length (customers s)"
    and "CustomerProcess_start rs pid s = Inr s'"
  shows "market_valid s'"
proof -
  let ?s1 = "set_customer pid
      ((customers s ! pid)\<lparr>arrivalTime := EnvironmentObject, totalPurchases := 0\<rparr>)
      (UpdateBasketStats (s\<lparr>stats := (stats s)\<lparr>basketsInUse := basketsInUse (stats s) + 1\<rparr>\<rparr>))"
  from assms(3) have v: "VisitCounters rs pid 0 (drop 0 COUNTERSDATA) ?s1 = Inr s'"
    by (simp add: CustomerProcess_start_def Let_def)
  have "market_valid ?s1"
    using assms(1,2)
    by (auto simp: market_valid_def set_customer_def UpdateBasketStats_def nth_list_update)
  from this _ _ v show ?thesis
    by (rule VisitCounters_valid) (use assms(2) in \<open>auto simp: set_customer_def UpdateBasketStats_def\<close>)
qed

lemma market_event_valid_Suc: "market_event_valid n e \<Longrightarrow> market_event_valid (Suc n) e"
  by (cases e) auto

lemma spawn_customer_valid:
  assumes "market_valid s"
  shows "market_valid (spawn_customer s)"
  using assms
  by (auto simp: market_valid_def spawn_customer_def schedule_def nth_append
      intro: market_event_valid_Suc less_SucI)

lemma CustomerGenerator_wait_valid:
  assumes "market_valid s" and "CustomerGenerator_wait params rs s = Inr s'"
  shows "market_valid s'"
  using assms
  by (auto simp: market_valid_def CustomerGenerator_wait_def schedule_def timeout_def
      split: sum.splits if_splits)

lemma CustomerProcess_valid:
  assumes "market_valid s" and "pid < length (customers s)"
    and "CustomerProcess params rs pid s = Inr s'"
  shows "market_valid s'"
proof (cases "customer_pc (customers s ! pid)")
  case CustomerCreated
  with assms show ?thesis
    by (auto simp: CustomerProcess_def intro: CustomerProcess_start_valid)
next
  case AtCounter
  with assms show ?thesis
    by (auto simp: CustomerProcess_def intro: counter_granted_valid)
next
  case Selecting
  with assms show ?thesis
    by (auto simp: CustomerProcess_def intro: counter_done_valid)
next
  case AtCashier
  with assms show ?thesis
    by (auto simp: CustomerProcess_def intro: CashierProcess_granted_valid)
next
  case Paying
  have "pid < length (customers (CashierProcess_paid pid s))"
    using assms(2) by (simp add: CashierProcess_paid_def schedule_def split: option.splits)
  with Paying assms show ?thesis
    by (auto simp: CustomerProcess_def
        intro!: CustomerProcess_finish_valid CashierProcess_paid_valid)
next
  case CustomerCompleted
  with assms show ?thesis
    by (auto simp: CustomerProcess_def market_valid_def schedule_def)
qed

lemma remove1_subset: "x \<in> set (remove1 m xs) \<Longrightarrow> x \<in> set xs"
  using set_remove1_subset [of m xs] by auto

lemma heappop_market_valid:
  assumes "market_valid s" and "heappop s = Some ((t, pr, i, e), s')"
  shows "market_valid s'" and "market_event_valid (length (customers s')) e"
proof -
  note h = heappop_Some [OF assms(2)]
  from assms(1) h(1) show "market_event_valid (length (customers s')) e"
    by (auto simp: market_valid_def h(2))
  from assms(1) show "market_valid s'"
    by (auto simp: market_valid_def h(2) dest: remove1_subset)
qed

lemmas stats_simps =
  market_stats_defs market_handler_defs Let_def count_where_update in_store_def with_pc_def

lemma CashierProcess_granted_stats:
  assumes "market_stats s" and "pid < length (customers s)"
    and "customer_pc (customers s ! pid) = AtCashier"
    and "CashierProcess_granted params pid s = Inr s'"
  shows "market_stats s'"
  using assms count_where_pos [of pid "customers s" "\<lambda>c. customer_pc c = AtCashier"]
  by (auto simp: stats_simps split: if_splits)

lemma CashierProcess_enter_stats:
  assumes "market_stats (with_pc pid Selecting s)" and "pid < length (customers s)"
    and "customer_pc (customers s ! pid) = AtCashier"
  shows "market_stats (CashierProcess_enter pid s)"
  using assms
  by (auto simp: stats_simps split: if_splits option.splits prod.splits)

lemma CustomerProcess_checkout_stats:
  assumes "market_stats (with_pc pid Selecting s)" and "pid < length (customers s)"
    and "CustomerProcess_checkout rs pid s = Inr s'"
  shows "market_stats s'"
proof -
  define s1 where "s1 = (\<lambda>n. set_customer pid
         ((customers s ! pid)\<lparr>totalPurchases := totalPurchases (customers s ! pid) + n,
            queueStartTime := now s, customer_pc := AtCashier\<rparr>)
         (s\<lparr>market_drawn := market_drawn s + 1\<rparr>))"
  from assms(3) obtain n where s': "s' = CashierProcess_enter pid (s1 n)"
    by (auto simp: CustomerProcess_checkout_def Let_def s1_def split: sum.splits)
  have a: "market_stats (with_pc pid Selecting (s1 n))"
    using assms(1,2) by (auto simp: stats_simps s1_def)
  have b: "pid < length (customers (s1 n))"
    using assms(2) by (simp add: s1_def set_customer_def)
  have c: "customer_pc (customers (s1 n) ! pid) = AtCashier"
    using assms(2) by (simp add: s1_def set_customer_def)
  show ?thesis
    unfolding s' by (rule CashierProcess_enter_stats [OF a b c])
qed

lemma counter_request_stats:
  assumes "market_stats (with_pc pid Selecting s)" and "pid < length (customers s)"
  shows "market_stats (counter_request pid k i s)"
  using assms
  by (auto simp: stats_simps split: if_splits option.splits prod.splits)

lemma VisitCounters_stats:
  assumes "market_stats (with_pc pid Selecting s)" and "pid < length (customers s)"
    and "VisitCounters rs pid k items s = Inr s'"
  shows "market_stats s'"
  using assms
proof (induction items arbitrary: k s)
  case Nil
  then show ?case
    by (auto intro: CustomerProcess_checkout_stats)
next
  case (Cons c items)
  obtain counterId counterData where c: "c = (counterId, counterData)"
    by (cases c)
  let ?s1 = "s\<lparr>market_drawn := market_drawn s + 1\<rparr>"
  have stats1: "market_stats (with_pc pid Selecting ?s1)"
    using Cons.prems(1) by (simp add: market_stats_defs with_pc_def set_customer_def)
  show ?case
  proof (cases "random_draw rs (market_drawn s) < probability counterData")
    case True
    with Cons.prems(3) c have s': "s' = counter_request pid k (counterId - 1) ?s1"
      by (simp add: Let_def)
    from stats1 Cons.prems(2) show ?thesis
      unfolding s' by (intro counter_request_stats) simp_all
  next
    case False
    with Cons.prems(3) c have "VisitCounters rs pid (k + 1) items ?s1 = Inr s'"
      by (simp add: Let_def)
    with stats1 Cons.prems(2) show ?thesis
      by (intro Cons.IH [of ?s1 "k + 1"]) simp_all
  qed
qed

lemma CustomerProcess_start_stats:
  assumes "market_stats s" and "pid < length (customers s)"
    and "customer_pc (customers s ! pid) = CustomerCreated"
    and "CustomerProcess_start rs pid s = Inr s'"
  shows "market_stats s'"
proof -
  define s1 where "s1 = set_customer pid
      ((customers s ! pid)\<lparr>arrivalTime := EnvironmentObject, totalPurchases := 0\<rparr>)
      (UpdateBasketStats (s\<lparr>stats := (stats s)\<lparr>basketsInUse := basketsInUse (stats s) + 1\<rparr>\<rparr>))"
  from assms(4) have v: "VisitCounters rs pid 0 COUNTERSDATA s1 = Inr s'"
    by (simp add: CustomerProcess_start_def Let_def s1_def)
  have a: "market_stats (with_pc pid Selecting s1)"
    using assms(1,2,3) by (auto simp: stats_simps s1_def)
  have b: "pid < length (customers s1)"
    using assms(2) by (simp add: s1_def set_customer_def UpdateBasketStats_def)
  show ?thesis
    by (rule VisitCounters_stats [OF a b v])
qed

lemma counter_granted_stats:
  assumes "market_stats s" and "pid < length (customers s)"
    and "customer_pc (customers s ! pid) = AtCounter"
    and "counter_granted rs pid s = Inr s'"
  shows "market_stats s'"
  using assms
  by (auto simp: stats_simps split: if_splits)

lemma counter_done_stats:
  assumes "market_stats s" and "pid < length (customers s)"
    and "customer_pc (customers s ! pid) = Selecting"
    and "counter_done rs pid s = Inr s'"
  shows "market_stats s'"
proof -
  define me where "me = customers s ! pid"
  define i where "i = fst (COUNTERSDATA ! counter_pos me) - 1"
  define s1 where "s1 = (\<lambda>n. schedule (CounterRelease i) NORMAL 0
             (set_customer pid (me\<lparr>totalPurchases := totalPurchases me + n\<rparr>)
                (s\<lparr>market_drawn := market_drawn s + 1,
                    counters := (counters s)[i := release pid (counters s ! i)]\<rparr>)))"
  from assms(4) obtain n where
    v: "VisitCounters rs pid (counter_pos me + 1) (drop (counter_pos me + 1) COUNTERSDATA)
          (s1 n) = Inr s'"
    by (auto simp: counter_done_def Let_def s1_def i_def me_def split: sum.splits prod.splits)
  have a: "market_stats (with_pc pid Selecting (s1 n))"
    using assms(1,2,3) by (auto simp: stats_simps s1_def me_def)
  have b: "pid < length (customers (s1 n))"
    using assms(2) by (simp add: s1_def schedule_def set_customer_def)
  show ?thesis
    by (rule VisitCounters_stats [OF a b v])
qed

lemma finish_stats:
  assumes "market_stats s" and "pid < length (customers s)"
    and "customer_pc (customers s ! pid) = Paying"
  shows "market_stats (CustomerProcess_finish params pid (CashierProcess_paid pid s))"
  using assms
  by (auto simp: stats_simps split: if_splits option.splits)

lemma released_stats:
  assumes "market_stats s"
  shows "market_stats (counter_released i s)" and "market_stats (cashier_released s)"
  using assms
  by (auto simp: stats_simps split: if_splits option.splits prod.splits)

lemma spawn_customer_stats:
  assumes "market_stats s"
  shows "market_stats (spawn_customer s)"
  using assms
  by (auto simp: market_stats_defs spawn_customer_def schedule_def in_store_def)

lemma CustomerGenerator_wait_stats:
  assumes "market_stats s" and "CustomerGenerator_wait params rs s = Inr s'"
  shows "market_stats s'"
  using assms
  by (auto simp: market_stats_defs CustomerGenerator_wait_def schedule_def timeout_def
      split: sum.splits if_splits)

lemma CustomerProcess_stats:
  assumes "market_stats s" and "pid < length (customers s)"
    and "CustomerProcess params rs pid s = Inr s'"
  shows "market_stats s'"
proof (cases "customer_pc (customers s ! pid)")
  case CustomerCreated
  with assms show ?thesis
    by (auto simp: CustomerProcess_def intro: CustomerProcess_start_stats)
next
  case AtCounter
  with assms show ?thesis
    by (auto simp: CustomerProcess_def intro: counter_granted_stats)
next
  case Selecting
  with assms show ?thesis
    by (auto simp: CustomerProcess_def intro: counter_done_stats)
next
  case AtCashier
  with assms show ?thesis
    by (auto simp: CustomerProcess_def intro: CashierProcess_granted_stats)
next
  case Paying
  with assms show ?thesis
    by (auto simp: CustomerProcess_def intro: finish_stats)
next
  case CustomerCompleted
  with assms show ?thesis
    by (auto simp: CustomerProcess_def market_stats_defs schedule_def)
qed

lemmas time_simps = market_time_def market_handler_defs Let_def

lemma CashierProcess_enter_time:
  assumes "market_time params s"
  shows "market_time params (CashierProcess_enter pid s)"
  using assms
  by (auto simp: time_simps split: option.splits prod.splits)

lemma CustomerProcess_checkout_time:
  assumes "market_time params s" and "CustomerProcess_checkout rs pid s = Inr s'"
  shows "market_time params s'"
proof -
  define s1 where "s1 = (\<lambda>n. set_customer pid
         ((customers s ! pid)\<lparr>totalPurchases := totalPurchases (customers s ! pid) + n,
            queueStartTime := now s, customer_pc := AtCashier\<rparr>)
         (s\<lparr>market_drawn := market_drawn s + 1\<rparr>))"
  from assms(2) obtain n where s': "s' = CashierProcess_enter pid (s1 n)"
    by (auto simp: CustomerProcess_checkout_def Let_def s1_def split: sum.splits)
  have "market_time params (s1 n)"
    using assms(1) by (simp add: market_time_def s1_def set_customer_def)
  then show ?thesis
    unfolding s' by (rule CashierProcess_enter_time)
qed

lemma counter_request_time:
  assumes "market_time params s"
  shows "market_time params (counter_request pid k i s)"
  using assms
  by (auto simp: time_simps split: option.splits prod.splits)

lemma VisitCounters_time:
  assumes "market_time params s" and "VisitCounters rs pid k items s = Inr s'"
  shows "market_time params s'"
  using assms
proof (induction items arbitrary: k s)
  case Nil
  then show ?case
    by (auto intro: CustomerProcess_checkout_time)
next
  case (Cons c items)
  obtain counterId counterData where c: "c = (counterId, counterData)"
    by (cases c)
  let ?s1 = "s\<lparr>market_drawn := market_drawn s + 1\<rparr>"
  have time1: "market_time params ?s1"
    using Cons.prems(1) by (simp add: market_time_def)
  show ?case
  proof (cases "random_draw rs (market_drawn s) < probability counterData")
    case True
    with Cons.prems(2) c have s': "s' = counter_request pid k (counterId - 1) ?s1"
      by (simp add: Let_def)
    from time1 show ?thesis
      unfolding s' by (rule counter_request_time)
  next
    case False
    with Cons.prems(2) c have "VisitCounters rs pid (k + 1) items ?s1 = Inr s'"
      by (simp add: Let_def)
    with time1 show ?thesis
      by (intro Cons.IH [of ?s1 "k + 1"]) simp_all
  qed
qed

lemma CustomerProcess_start_time:
  assumes "market_time params s" and "CustomerProcess_start rs pid s = Inr s'"
  shows "market_time params s'"
proof -
  define s1 where "s1 = set_customer pid
      ((customers s ! pid)\<lparr>arrivalTime := EnvironmentObject, totalPurchases := 0\<rparr>)
      (UpdateBasketStats (s\<lparr>stats := (stats s)\<lparr>basketsInUse := basketsInUse (stats s) + 1\<rparr>\<rparr>))"
  from assms(2) have v: "VisitCounters rs pid 0 COUNTERSDATA s1 = Inr s'"
    by (simp add: CustomerProcess_start_def Let_def s1_def)
  have a: "market_time params s1"
    using assms(1) by (auto simp: time_simps s1_def split: option.splits)
  show ?thesis
    by (rule VisitCounters_time [OF a v])
qed

lemma counter_granted_time:
  assumes "market_time params s" and "counter_granted rs pid s = Inr s'"
  shows "market_time params s'"
  using assms
  by (auto simp: time_simps split: if_splits option.splits)

lemma counter_done_time:
  assumes "market_time params s" and "counter_done rs pid s = Inr s'"
  shows "market_time params s'"
proof -
  define me where "me = customers s ! pid"
  define i where "i = fst (COUNTERSDATA ! counter_pos me) - 1"
  define s1 where "s1 = (\<lambda>n. schedule (CounterRelease i) NORMAL 0
             (set_customer pid (me\<lparr>totalPurchases := totalPurchases me + n\<rparr>)
                (s\<lparr>market_drawn := market_drawn s + 1,
                    counters := (counters s)[i := release pid (counters s ! i)]\<rparr>)))"
  from assms(2) obtain n where
    v: "VisitCounters rs pid (counter_pos me + 1) (drop (counter_pos me + 1) COUNTERSDATA)
          (s1 n) = Inr s'"
    by (auto simp: counter_done_def Let_def s1_def i_def me_def split: sum.splits prod.splits)
  have a: "market_time params (s1 n)"
    using assms(1) by (auto simp: time_simps s1_def split: option.splits)
  show ?thesis
    by (rule VisitCounters_time [OF a v])
qed

lemma CashierProcess_granted_time:
  assumes "market_time params s" and "CashierProcess_granted params pid s = Inr s'"
  shows "market_time params s'"
  using assms
  by (auto simp: time_simps split: if_splits option.splits)

lemma finish_time:
  assumes "market_time params s"
  shows "market_time params (CustomerProcess_finish params pid (CashierProcess_paid pid s))"
  using assms
  by (auto simp: time_simps split: if_splits option.splits)

lemma released_time:
  assumes "market_time params s"
  shows "market_time params (counter_released i s)" and "market_time params (cashier_released s)"
  using assms
  by (auto simp: time_simps split: if_splits option.splits prod.splits)

lemma spawn_customer_time:
  assumes "market_time params s"
  shows "market_time params (spawn_customer s)"
  using assms
  by (auto simp: market_time_def spawn_customer_def schedule_def split: option.splits)

lemma CustomerGenerator_wait_time:
  assumes "market_time params s" and "CustomerGenerator_wait params rs s = Inr s'"
  shows "market_time params s'"
  using assms
  by (auto simp: market_time_def CustomerGenerator_wait_def schedule_def timeout_def
      split: sum.splits if_splits option.splits)

lemma CustomerProcess_time:
  assumes "market_time params s" and "CustomerProcess params rs pid s = Inr s'"
  shows "market_time params s'"
proof (cases "customer_pc (customers s ! pid)")
  case CustomerCreated
  with assms show ?thesis
    by (auto simp: CustomerProcess_def intro: CustomerProcess_start_time)
next
  case AtCounter
  with assms show ?thesis
    by (auto simp: CustomerProcess_def intro: counter_granted_time)
next
  case Selecting
  with assms show ?thesis
    by (auto simp: CustomerProcess_def intro: counter_done_time)
next
  case AtCashier
  with assms show ?thesis
    by (auto simp: CustomerProcess_def intro: CashierProcess_granted_time)
next
  case Paying
  with assms show ?thesis
    by (auto simp: CustomerProcess_def intro: finish_time)
next
  case CustomerCompleted
  with assms show ?thesis
    by (auto simp: CustomerProcess_def market_time_def schedule_def split: option.splits)
qed

lemma heappop_market_time:
  assumes "market_time params s" and "heappop s = Some ((t, pr, i, e), s')"
  shows "market_time params s'" and "now s' = t" and "e = MarketUntil \<Longrightarrow> t = simTime params"
proof -
  note h = heappop_Some [OF assms(2)]
  from assms(1) h(1) have t: "now s \<le> t" and u: "e = MarketUntil \<longrightarrow> t = simTime params"
    by (auto simp: market_time_def)
  from u show "e = MarketUntil \<Longrightarrow> t = simTime params"
    by simp
  show "now s' = t"
    by (simp add: h(2))
  from assms(1) t h(3) show "market_time params s'"
    by (auto simp: market_time_def h(2) split: option.splits dest!: remove1_subset)
qed

lemma continue_Stopped [simp]: "continue r \<noteq> Stopped s"
  by (cases r) (simp_all add: continue_def)

lemma continue_Running [simp]: "continue r = Running s \<longleftrightarrow> r = Inr s"
  by (cases r) (simp_all add: continue_def)

lemma CustomerProcess_inv:
  assumes "market_inv params s" and "pid < length (customers s)"
    and "CustomerProcess params rs pid s = Inr s'"
  shows "market_inv params s'"
  using assms CustomerProcess_valid [of s pid params rs s']
    CustomerProcess_stats [of s pid params rs s'] CustomerProcess_time [of params s rs pid s']
  by (simp add: market_inv_def)

lemma heappop_market_inv:
  assumes "market_inv params s" and "heappop s = Some ((t, pr, i, e), s')"
  shows "market_inv params s'"
proof -
  note h = heappop_Some [OF assms(2)]
  from assms(1) have "market_stats s'"
    by (simp add: market_inv_def market_stats_defs h(2))
  with assms heappop_market_valid(1) [OF _ assms(2)] heappop_market_time(1) [OF _ assms(2)]
  show ?thesis
    by (simp add: market_inv_def)
qed

lemma Supermarket_step_inv:
  assumes "market_inv params s"
    and "Supermarket_step params rs s = Running s' \<or> Supermarket_step params rs s = Stopped s'"
  shows "market_inv params s'"
proof -
  from assms(2) obtain t pr i e s1 where pop: "heappop s = Some ((t, pr, i, e), s1)"
    and cb: "market_callbacks params rs e s1 = Running s'
      \<or> market_callbacks params rs e s1 = Stopped s'"
    by (auto simp: Supermarket_step_def split: option.splits)
  note inv1 = heappop_market_inv [OF assms(1) pop]
  from assms(1) have "market_valid s"
    by (simp add: market_inv_def)
  note ev = heappop_market_valid(2) [OF this pop]
  have process: "market_inv params s'"
    if "CustomerProcess params rs pid s1 = Inr s'" and "pid < length (customers s1)"
    for pid
    using that inv1 by (auto intro: CustomerProcess_inv)
  show ?thesis
  proof (cases e)
    case CustomerGeneratorInit
    have "market_inv params (s1\<lparr>nextCustomerId := 1\<rparr>)"
      using inv1 by (simp add: market_inv_def market_valid_def market_stats_defs market_time_def)
    with cb CustomerGeneratorInit show ?thesis
      by (auto simp: continue_def market_inv_def split: sum.splits
          intro: CustomerGenerator_wait_valid CustomerGenerator_wait_stats
            CustomerGenerator_wait_time)
  next
    case CustomerGeneratorTimeout
    have "market_inv params (spawn_customer s1)"
      using inv1
      by (simp add: market_inv_def spawn_customer_valid spawn_customer_stats spawn_customer_time)
    with cb CustomerGeneratorTimeout show ?thesis
      by (auto simp: continue_def market_inv_def split: sum.splits
          intro: CustomerGenerator_wait_valid CustomerGenerator_wait_stats
            CustomerGenerator_wait_time)
  next
    case (CustomerInit pid)
    with cb ev show ?thesis by (auto intro: process)
  next
    case (CounterRequest pid)
    with cb ev show ?thesis by (auto intro: process)
  next
    case (SelectionTimeout pid)
    with cb ev show ?thesis by (auto intro: process)
  next
    case (CounterRelease j)
    with cb ev inv1 show ?thesis
      by (auto simp: market_inv_def intro: counter_released_valid released_stats released_time)
  next
    case (CashierRequest pid)
    with cb ev show ?thesis by (auto intro: process)
  next
    case (PaymentTimeout pid)
    with cb ev show ?thesis by (auto intro: process)
  next
    case CashierRelease
    with cb inv1 show ?thesis
      by (auto simp: market_inv_def intro: cashier_released_valid released_stats released_time)
  next
    case (CustomerEnd pid)
    with cb inv1 show ?thesis by auto
  next
    case MarketUntil
    with cb inv1 show ?thesis by auto
  qed
qed

lemma Supermarket_step_Stopped:
  assumes "market_inv params s" and "Supermarket_step params rs s = Stopped s'"
  shows "now s' = simTime params"
proof -
  from assms(2) obtain t pr i e s1 where pop: "heappop s = Some ((t, pr, i, e), s1)"
    and cb: "market_callbacks params rs e s1 = Stopped s'"
    by (auto simp: Supermarket_step_def split: option.splits)
  from cb have e: "e = MarketUntil" and s': "s' = s1"
    by (cases e; auto simp: continue_def split: sum.splits)+
  from assms(1) have "market_time params s"
    by (simp add: market_inv_def)
  from heappop_market_time(2,3) [OF this pop] e s' show ?thesis
    by simp
qed

lemma Supermarket_start_inv:
  assumes "Supermarket_start params = Inr s"
  shows "market_inv params s"
  using assms
  by (auto simp: Supermarket_start_def Supermarket_def schedule_def Let_def market_inv_def
      market_valid_def market_stats_defs market_time_def count_where_def Resource_def nth_Cons
      split: if_splits nat.splits)

lemma Supermarket_reachable_inv:
  assumes "Supermarket_reachable params rs s"
  shows "market_inv params s"
  using assms
proof induction
  case (market_start s)
  then show ?case by (rule Supermarket_start_inv)
next
  case (market_running s s')
  then show ?case by (auto intro: Supermarket_step_inv)
next
  case (market_stopped s s')
  then show ?case by (auto intro: Supermarket_step_inv)
qed

lemma Supermarket_run_reachable:
  assumes "Supermarket_reachable params rs s" and "Supermarket_run params rs fuel s = Some (Inr s')"
  shows "Supermarket_reachable params rs s' \<and> now s' = simTime params"
  using assms
proof (induction fuel arbitrary: s)
  case 0
  then show ?case by simp
next
  case (Suc fuel)
  show ?case
  proof (cases "Supermarket_step params rs s")
    case (Running s1)
    with Suc.prems have "Supermarket_reachable params rs s1"
      and "Supermarket_run params rs fuel s1 = Some (Inr s')"
      by (auto intro: market_running)
    then show ?thesis by (rule Suc.IH)
  next
    case (Stopped s1)
    with Suc.prems have s1: "s1 = s'" by simp
    from Suc.prems(1) Stopped have "Supermarket_reachable params rs s1"
      by (rule market_stopped)
    moreover have "now s1 = simTime params"
      using Supermarket_reachable_inv [OF Suc.prems(1)] Stopped
      by (rule Supermarket_step_Stopped)
    ultimately show ?thesis by (simp add: s1)
  next
    case (Failed e)
    with Suc.prems show ?thesis by simp
  qed
qed

lemma Supermarket_RunSim_final:
  assumes "Supermarket_RunSim params rs fuel = Some (Inr st)"
  obtains s where "Supermarket_reachable params rs s" and "now s = simTime params"
    and "st = close_busy_interval params s"
proof -
  from assms obtain s0 s where start: "Supermarket_start params = Inr s0"
    and run: "Supermarket_run params rs fuel s0 = Some (Inr s)"
    and st: "st = close_busy_interval params s"
    by (auto simp: Supermarket_RunSim_def split: sum.splits option.splits)
  from start have "Supermarket_reachable params rs s0"
    by (rule market_start)
  from Supermarket_run_reachable [OF this run] st that show thesis
    by blast
qed


subsection \<open>The library keeps its invariant\<close>

lemma heap_count_append [simp]:
  "heap_count (q @ [(t, pr, i, e)]) p = heap_count q p + (if lib_event_pid e = Some p then 1 else 0)"
  by (simp add: heap_count_def)

lemma heap_count_remove1:
  "(t, pr, i, e) \<in> set q \<Longrightarrow>
     heap_count q p = heap_count (remove1 (t, pr, i, e) q) p
       + (if lib_event_pid e = Some p then 1 else 0)"
  unfolding heap_count_def
  by (induction q) auto

lemma heap_count_0:
  "heap_count q p = 0 \<Longrightarrow> (t, pr, i, e) \<in> set q \<Longrightarrow> lib_event_pid e \<noteq> Some p"
  unfolding heap_count_def
  by (auto simp: filter_empty_conv)

lemma count_list_append1 [simp]:
  "count_list (xs @ [y]) p = count_list xs p + (if y = p then 1 else 0)"
  by (induction xs) auto

lemma lib_event_ok_reader_update:
  "lib_event_pid e \<noteq> Some p \<Longrightarrow> lib_event_ok (rds[p := r]) libs e = lib_event_ok rds libs e"
  by (cases e) (auto simp: nth_list_update)

lemma lib_event_ok_users_mono:
  assumes "lib_event_ok rds libs e"
    and "\<And>i. i < 2 \<Longrightarrow> set (users (libs ! i)) \<subseteq> set (users (libs' ! i))"
  shows "lib_event_ok rds libs' e"
  using assms by (cases e) auto

lemma idle_not_event:
  "idle q libs p \<Longrightarrow> (t, pr, i, e) \<in> set q \<Longrightarrow> lib_event_pid e \<noteq> Some p"
  by (auto simp: idle_def dest: heap_count_0)

lemma idle_not_queued: "idle q libs p \<Longrightarrow> i < 2 \<Longrightarrow> p \<notin> set (put_queue (libs ! i))"
  by (auto simp: idle_def less_2_cases_iff)

lemma enqueue_control:
  assumes ok: "control_ok rds q libs busy" and p: "p < length rds"
    and created: "reader_pc (rds ! p) = ReaderCreated" and idle: "idle q libs p"
    and r: "reader_pc r = ReaderWaiting" "librarIndex r = i" and i: "i < 2"
  shows "control_ok (rds[p := r]) q
     (libs[i := (libs ! i)\<lparr>put_queue := put_queue (libs ! i) @ [p]\<rparr>]) busy"
    (is "control_ok ?rds q ?libs busy")
proof -
  from ok have len: "length libs = 2"
    by (simp add: control_ok_def caps_ok_def)
  have users: "users (?libs ! j) = users (libs ! j)" "capacity (?libs ! j) = capacity (libs ! j)"
    if "j < 2" for j
    using that len i by (auto simp: nth_list_update)
  have caps: "caps_ok ?libs"
    using ok users by (simp add: control_ok_def caps_ok_def)
  have events: "events_ok ?rds ?libs q"
    unfolding events_ok_def
  proof (intro allI impI)
    fix t pr j e assume e: "(t, pr, j, e) \<in> set q"
    with ok have "lib_event_ok rds libs e"
      by (auto simp: control_ok_def events_ok_def)
    then have "lib_event_ok rds ?libs e"
      by (rule lib_event_ok_users_mono) (simp add: users)
    with idle_not_event [OF idle e] show "lib_event_ok ?rds ?libs e"
      by (simp add: lib_event_ok_reader_update)
  qed
  have unique: "unique_ok q ?libs"
    unfolding unique_ok_def
  proof
    fix p'
    from ok have u: "heap_count q p' + count_list (put_queue (libs ! 0)) p'
        + count_list (put_queue (libs ! 1)) p' \<le> 1"
      by (simp add: control_ok_def unique_ok_def)
    from idle have z: "heap_count q p = 0" "count_list (put_queue (libs ! 0)) p = 0"
      "count_list (put_queue (libs ! 1)) p = 0"
      by (simp_all add: idle_def count_list_0_iff)
    from i consider "i = 0" | "i = 1" by linarith
    then show "heap_count q p' + count_list (put_queue (?libs ! 0)) p'
        + count_list (put_queue (?libs ! 1)) p' \<le> 1"
      using u z len by cases (auto simp: nth_list_update)
  qed
  have queues: "queues_ok ?rds ?libs"
    unfolding queues_ok_def
  proof (intro allI impI ballI)
    fix j p' assume j: "j < 2" and p': "p' \<in> set (put_queue (?libs ! j))"
    show "p' < length ?rds \<and> reader_pc (?rds ! p') = ReaderWaiting
        \<and> librarIndex (?rds ! p') = j"
    proof (cases "p' = p")
      case True
      with p' idle_not_queued [OF idle j] j len i have "j = i"
        by (auto simp: nth_list_update split: if_splits)
      with True p r show ?thesis by simp
    next
      case False
      with p' j len i have "p' \<in> set (put_queue (libs ! j))"
        by (auto simp: nth_list_update split: if_splits)
      with ok j False show ?thesis
        by (auto simp: control_ok_def queues_ok_def)
    qed
  qed
  have serving: "serving_ok ?rds ?libs busy"
    unfolding serving_ok_def
  proof (intro allI impI)
    fix p' assume p': "p' < length ?rds" and s: "reader_pc (?rds ! p') = ReaderServing"
    with r p have ne: "p' \<noteq> p" by auto
    with p' s ok have "librarIndex (rds ! p') < 2
        \<and> p' \<in> set (users (libs ! librarIndex (rds ! p')))
        \<and> busy ! librarIndex (rds ! p') \<le> startServe (rds ! p')"
      by (auto simp: control_ok_def serving_ok_def)
    with ne show "librarIndex (?rds ! p') < 2
        \<and> p' \<in> set (users (?libs ! librarIndex (?rds ! p')))
        \<and> busy ! librarIndex (?rds ! p') \<le> startServe (?rds ! p')"
      by (simp add: users)
  qed
  from ok caps events unique queues serving show ?thesis
    by (simp add: control_ok_def)
qed

lemma grant_control:
  assumes ok: "control_ok rds q libs busy" and i: "i < 2"
    and head: "put_queue (libs ! i) = g # gs" and free: "length (users (libs ! i)) < capacity (libs ! i)"
  shows "control_ok rds (q @ [(t, pr, n, ReaderRequest i g)])
     (libs[i := (libs ! i)\<lparr>users := users (libs ! i) @ [g], put_queue := gs\<rparr>]) busy"
    (is "control_ok rds ?q ?libs busy")
proof -
  from ok have len: "length libs = 2" and caps0: "caps_ok libs"
    by (simp_all add: control_ok_def caps_ok_def)
  from caps0 i free have empty: "users (libs ! i) = []"
    by (simp add: caps_ok_def)
  have other: "?libs ! j = libs ! j" if "j \<noteq> i" for j
    using that by simp
  have this_one: "?libs ! i = (libs ! i)\<lparr>users := [g], put_queue := gs\<rparr>"
    using i len empty by simp
  from ok i head have g: "g < length rds" "reader_pc (rds ! g) = ReaderWaiting"
    "librarIndex (rds ! g) = i"
    by (auto simp: control_ok_def queues_ok_def)
  have caps: "caps_ok ?libs"
    unfolding caps_ok_def
  proof (intro conjI allI impI)
    show "length ?libs = 2" using len by simp
    fix j :: nat assume "j < 2"
    with caps0 show "capacity (?libs ! j) = 1" "length (users (?libs ! j)) \<le> 1"
      using this_one by (cases "j = i"; simp add: caps_ok_def)+
  qed
  have events: "events_ok rds ?libs ?q"
    unfolding events_ok_def
  proof (intro allI impI)
    fix t' pr' j e assume "(t', pr', j, e) \<in> set ?q"
    then consider "(t', pr', j, e) \<in> set q" | "e = ReaderRequest i g"
      by auto
    then show "lib_event_ok rds ?libs e"
    proof cases
      case 1
      with ok have "lib_event_ok rds libs e"
        by (auto simp: control_ok_def events_ok_def)
      then show ?thesis
      proof (rule lib_event_ok_users_mono)
        fix k :: nat assume "k < 2"
        show "set (users (libs ! k)) \<subseteq> set (users (?libs ! k))"
          using this_one empty by (cases "k = i") simp_all
      qed
    next
      case 2
      with g i this_one show ?thesis by simp
    qed
  qed
  have unique: "unique_ok ?q ?libs"
    unfolding unique_ok_def
  proof
    fix p'
    from ok have u: "heap_count q p' + count_list (put_queue (libs ! 0)) p'
        + count_list (put_queue (libs ! 1)) p' \<le> 1"
      by (simp add: control_ok_def unique_ok_def)
    from i consider "i = 0" | "i = 1" by linarith
    then show "heap_count ?q p' + count_list (put_queue (?libs ! 0)) p'
        + count_list (put_queue (?libs ! 1)) p' \<le> 1"
      using u len head by cases (auto simp: nth_list_update split: if_splits)
  qed
  have queues: "queues_ok rds ?libs"
    unfolding queues_ok_def
  proof (intro allI impI ballI)
    fix j p' assume j: "j < 2" and p': "p' \<in> set (put_queue (?libs ! j))"
    have "p' \<in> set (put_queue (libs ! j))"
      using p' this_one head by (cases "j = i") simp_all
    with ok j show "p' < length rds \<and> reader_pc (rds ! p') = ReaderWaiting
        \<and> librarIndex (rds ! p') = j"
      by (auto simp: control_ok_def queues_ok_def)
  qed
  have serving: "serving_ok rds ?libs busy"
    unfolding serving_ok_def
  proof (intro allI impI)
    fix p' assume p': "p' < length rds" and s: "reader_pc (rds ! p') = ReaderServing"
    with ok have old: "librarIndex (rds ! p') < 2"
      "p' \<in> set (users (libs ! librarIndex (rds ! p')))"
      "busy ! librarIndex (rds ! p') \<le> startServe (rds ! p')"
      by (auto simp: control_ok_def serving_ok_def)
    from old(2) empty have "librarIndex (rds ! p') \<noteq> i"
      by auto
    with old show "librarIndex (rds ! p') < 2
        \<and> p' \<in> set (users (?libs ! librarIndex (rds ! p')))
        \<and> busy ! librarIndex (rds ! p') \<le> startServe (rds ! p')"
      by simp
  qed
  from ok caps events unique queues serving show ?thesis
    by (simp add: control_ok_def)
qed

lemma schedule_control:
  assumes ok: "control_ok rds q libs busy" and e: "lib_event_pid e = None"
    and rel: "lib_event_ok rds libs e"
  shows "control_ok rds (q @ [(t, pr, n, e)]) libs busy"
proof -
  have "events_ok rds libs (q @ [(t, pr, n, e)])"
    using ok rel by (auto simp: control_ok_def events_ok_def)
  moreover have "unique_ok (q @ [(t, pr, n, e)]) libs"
    using ok e by (simp add: control_ok_def unique_ok_def)
  ultimately show ?thesis
    using ok by (simp add: control_ok_def)
qed

lemma begin_control:
  assumes ok: "control_ok rds q libs busy" and p: "p < length rds"
    and idle: "idle q libs p"
    and was: "librarIndex (rds ! p) < 2" "p \<in> set (users (libs ! librarIndex (rds ! p)))"
    and r: "reader_pc r = ReaderServing" "librarIndex r = librarIndex (rds ! p)"
      "busy ! librarIndex (rds ! p) \<le> startServe r"
  shows "control_ok (rds[p := r]) (q @ [(t, pr, n, ReaderTimeout p)]) libs busy"
    (is "control_ok ?rds ?q libs busy")
proof -
  have events: "events_ok ?rds libs ?q"
    unfolding events_ok_def
  proof (intro allI impI)
    fix t' pr' j e assume "(t', pr', j, e) \<in> set ?q"
    then consider "(t', pr', j, e) \<in> set q" | "e = ReaderTimeout p"
      by auto
    then show "lib_event_ok ?rds libs e"
    proof cases
      case 1
      with ok have "lib_event_ok rds libs e"
        by (auto simp: control_ok_def events_ok_def)
      with idle_not_event [OF idle 1] show ?thesis
        by (simp add: lib_event_ok_reader_update)
    next
      case 2
      with p r show ?thesis by simp
    qed
  qed
  have unique: "unique_ok ?q libs"
    unfolding unique_ok_def
  proof
    fix p'
    from ok have u: "heap_count q p' + count_list (put_queue (libs ! 0)) p'
        + count_list (put_queue (libs ! 1)) p' \<le> 1"
      by (simp add: control_ok_def unique_ok_def)
    from idle have z: "heap_count q p = 0" "count_list (put_queue (libs ! 0)) p = 0"
      "count_list (put_queue (libs ! 1)) p = 0"
      by (simp_all add: idle_def count_list_0_iff)
    show "heap_count ?q p' + count_list (put_queue (libs ! 0)) p'
        + count_list (put_queue (libs ! 1)) p' \<le> 1"
      using u z by auto
  qed
  have queues: "queues_ok ?rds libs"
    unfolding queues_ok_def
  proof (intro allI impI ballI)
    fix j p' assume j: "j < 2" and p': "p' \<in> set (put_queue (libs ! j))"
    with idle_not_queued [OF idle j] have "p' \<noteq> p" by auto
    with ok j p' show "p' < length ?rds \<and> reader_pc (?rds ! p') = ReaderWaiting
        \<and> librarIndex (?rds ! p') = j"
      by (auto simp: control_ok_def queues_ok_def)
  qed
  have serving: "serving_ok ?rds libs busy"
    unfolding serving_ok_def
  proof (intro allI impI)
    fix p' assume p': "p' < length ?rds" and s: "reader_pc (?rds ! p') = ReaderServing"
    show "librarIndex (?rds ! p') < 2
        \<and> p' \<in> set (users (libs ! librarIndex (?rds ! p')))
        \<and> busy ! librarIndex (?rds ! p') \<le> startServe (?rds ! p')"
    proof (cases "p' = p")
      case True
      with p was r show ?thesis by simp
    next
      case False
      with p' s ok show ?thesis
        by (auto simp: control_ok_def serving_ok_def)
    qed
  qed
  from ok events unique queues serving show ?thesis
    by (simp add: control_ok_def)
qed

lemma end_control:
  assumes ok: "control_ok rds q libs busy" and p: "p < length rds"
    and idle: "idle q libs p" and was: "reader_pc (rds ! p) = ReaderServing"
    and r: "reader_pc r = ReaderCompleted"
  shows "control_ok (rds[p := r]) q
     (libs[librarIndex (rds ! p) := release p (libs ! librarIndex (rds ! p))])
     (busy[librarIndex (rds ! p) := b])"
    (is "control_ok ?rds q ?libs ?busy")
proof -
  define k where "k = librarIndex (rds ! p)"
  from ok have len: "length libs = 2" and caps0: "caps_ok libs"
    by (simp_all add: control_ok_def caps_ok_def)
  from ok p was have k: "k < 2" and mine: "p \<in> set (users (libs ! k))"
    by (auto simp: control_ok_def serving_ok_def k_def)
  from caps0 k mine have only: "users (libs ! k) = [p]"
    by (cases "users (libs ! k)") (auto simp: caps_ok_def)
  have this_one: "?libs ! k = (libs ! k)\<lparr>users := []\<rparr>"
    using k len only by (simp add: k_def release_def)
  have other: "?libs ! j = libs ! j" if "j \<noteq> k" for j
    using that by (simp add: k_def)
  have caps: "caps_ok ?libs"
    unfolding caps_ok_def
  proof (intro conjI allI impI)
    show "length ?libs = 2" using len by simp
    fix j :: nat assume "j < 2"
    with caps0 show "capacity (?libs ! j) = 1" "length (users (?libs ! j)) \<le> 1"
      using this_one other by (cases "j = k"; simp add: caps_ok_def)+
  qed
  have events: "events_ok ?rds ?libs q"
    unfolding events_ok_def
  proof (intro allI impI)
    fix t pr j e assume e: "(t, pr, j, e) \<in> set q"
    with ok have old: "lib_event_ok rds libs e"
      by (auto simp: control_ok_def events_ok_def)
    note ne = idle_not_event [OF idle e]
    have "lib_event_ok rds ?libs e"
    proof (cases e)
      case (ReaderRequest i p')
      with old have p': "p' \<in> set (users (libs ! i))" and i: "i < 2" by auto
      from ne ReaderRequest have "p' \<noteq> p" by simp
      with p' only have "i \<noteq> k" by auto
      with old ReaderRequest other show ?thesis by simp
    qed (use old in auto)
    with ne show "lib_event_ok ?rds ?libs e"
      by (simp add: lib_event_ok_reader_update)
  qed
  have pq: "put_queue (?libs ! j) = put_queue (libs ! j)" for j
    using this_one other by (cases "j = k") simp_all
  have unique: "unique_ok q ?libs"
    using ok by (simp add: control_ok_def unique_ok_def pq)
  have queues: "queues_ok ?rds ?libs"
    unfolding queues_ok_def
  proof (intro allI impI ballI)
    fix j p' assume j: "j < 2" and p': "p' \<in> set (put_queue (?libs ! j))"
    then have p'': "p' \<in> set (put_queue (libs ! j))" by (simp add: pq)
    with idle_not_queued [OF idle j] have "p' \<noteq> p" by auto
    with ok j p'' show "p' < length ?rds \<and> reader_pc (?rds ! p') = ReaderWaiting
        \<and> librarIndex (?rds ! p') = j"
      by (auto simp: control_ok_def queues_ok_def)
  qed
  have serving: "serving_ok ?rds ?libs ?busy"
    unfolding serving_ok_def
  proof (intro allI impI)
    fix p' assume p': "p' < length ?rds" and s: "reader_pc (?rds ! p') = ReaderServing"
    with r p have ne: "p' \<noteq> p" by auto
    with p' s ok have old: "librarIndex (rds ! p') < 2"
      "p' \<in> set (users (libs ! librarIndex (rds ! p')))"
      "busy ! librarIndex (rds ! p') \<le> startServe (rds ! p')"
      by (auto simp: control_ok_def serving_ok_def)
    from old(2) only ne have "librarIndex (rds ! p') \<noteq> k" by auto
    with old ne other show "librarIndex (?rds ! p') < 2
        \<and> p' \<in> set (users (?libs ! librarIndex (?rds ! p')))
        \<and> ?busy ! librarIndex (?rds ! p') \<le> startServe (?rds ! p')"
      by (simp add: k_def)
  qed
  from ok caps events unique queues serving show ?thesis
    by (simp add: control_ok_def)
qed

lemma spawn_control:
  assumes ok: "control_ok rds q libs busy" and r: "reader_pc r = ReaderCreated"
  shows "control_ok (rds @ [r]) (q @ [(t, pr, n, ReaderInit (length rds))]) libs busy"
    (is "control_ok ?rds ?q libs busy")
proof -
  have mono: "lib_event_ok ?rds libs e" if "lib_event_ok rds libs e" for e
    using that by (cases e) (auto simp: nth_append)
  have pid_lt: "p < length rds" if "(t', pr', j, e) \<in> set q" "lib_event_pid e = Some p"
    for t' pr' j e p
  proof -
    from ok that(1) have "lib_event_ok rds libs e"
      by (auto simp: control_ok_def events_ok_def)
    with that(2) show ?thesis by (cases e) auto
  qed
  have fresh: "heap_count q (length rds) = 0"
    unfolding heap_count_def using pid_lt by (fastforce simp: filter_empty_conv)
  have fresh_q: "count_list (put_queue (libs ! j)) (length rds) = 0" if "j < 2" for j
    using ok that by (auto simp: control_ok_def queues_ok_def count_list_0_iff)
  have events: "events_ok ?rds libs ?q"
    using ok r by (auto simp: control_ok_def events_ok_def intro: mono)
  have unique: "unique_ok ?q libs"
    unfolding unique_ok_def
  proof
    fix p'
    from ok have u: "heap_count q p' + count_list (put_queue (libs ! 0)) p'
        + count_list (put_queue (libs ! 1)) p' \<le> 1"
      by (simp add: control_ok_def unique_ok_def)
    show "heap_count ?q p' + count_list (put_queue (libs ! 0)) p'
        + count_list (put_queue (libs ! 1)) p' \<le> 1"
      using u fresh fresh_q [of 0] fresh_q [of 1] by auto
  qed
  have queues: "queues_ok ?rds libs"
    unfolding queues_ok_def
  proof (intro allI impI ballI)
    fix j p' assume "j < 2" and "p' \<in> set (put_queue (libs ! j))"
    with ok have "p' < length rds \<and> reader_pc (rds ! p') = ReaderWaiting
        \<and> librarIndex (rds ! p') = j"
      by (auto simp: control_ok_def queues_ok_def)
    then show "p' < length ?rds \<and> reader_pc (?rds ! p') = ReaderWaiting
        \<and> librarIndex (?rds ! p') = j"
      by (simp add: nth_append)
  qed
  have serving: "serving_ok ?rds libs busy"
    unfolding serving_ok_def
  proof (intro allI impI)
    fix p' assume p': "p' < length ?rds" and s: "reader_pc (?rds ! p') = ReaderServing"
    with r have lt: "p' < length rds"
      by (cases "p' = length rds") auto
    with s ok have "librarIndex (rds ! p') < 2
        \<and> p' \<in> set (users (libs ! librarIndex (rds ! p')))
        \<and> busy ! librarIndex (rds ! p') \<le> startServe (rds ! p')"
      by (auto simp: control_ok_def serving_ok_def nth_append)
    with lt show "librarIndex (?rds ! p') < 2
        \<and> p' \<in> set (users (libs ! librarIndex (?rds ! p')))
        \<and> busy ! librarIndex (?rds ! p') \<le> startServe (?rds ! p')"
      by (simp add: nth_append)
  qed
  from ok events unique queues serving show ?thesis
    by (simp add: control_ok_def)
qed

lemma pop_control:
  assumes ok: "control_ok rds q libs busy" and e: "(t, pr, n, e) \<in> set q"
  shows "control_ok rds (remove1 (t, pr, n, e) q) libs busy"
    and "lib_event_ok rds libs e"
    and "\<And>p. lib_event_pid e = Some p \<Longrightarrow> idle (remove1 (t, pr, n, e) q) libs p"
proof -
  from ok e show "lib_event_ok rds libs e"
    by (auto simp: control_ok_def events_ok_def)
  have u: "heap_count q p + count_list (put_queue (libs ! 0)) p
        + count_list (put_queue (libs ! 1)) p \<le> 1" for p
    using ok by (simp add: control_ok_def unique_ok_def)
  show "idle (remove1 (t, pr, n, e) q) libs p" if "lib_event_pid e = Some p" for p
    using u [of p] heap_count_remove1 [OF e, of p] that
    by (simp add: idle_def count_list_0_iff [symmetric])
  have "unique_ok (remove1 (t, pr, n, e) q) libs"
    unfolding unique_ok_def
  proof
    fix p
    show "heap_count (remove1 (t, pr, n, e) q) p + count_list (put_queue (libs ! 0)) p
        + count_list (put_queue (libs ! 1)) p \<le> 1"
      using u [of p] heap_count_remove1 [OF e, of p] by (simp split: if_splits)
  qed
  moreover have "events_ok rds libs (remove1 (t, pr, n, e) q)"
    using ok by (auto simp: control_ok_def events_ok_def dest: remove1_subset)
  ultimately show "control_ok rds (remove1 (t, pr, n, e) q) libs busy"
    using ok by (simp add: control_ok_def)
qed

lemma select_librarIndex_lt: "select_librarIndex libs busy < 2"
  by (simp add: select_librarIndex_def Let_def)

lemma trigger_put_cases:
  obtains (none) "trigger_put r = (r, None)"
    | (grant) g gs where "put_queue r = g # gs" and "length (users r) < capacity r"
      and "trigger_put r = (r\<lparr>users := users r @ [g], put_queue := gs\<rparr>, Some g)"
proof (cases "put_queue r")
  case Nil
  then show ?thesis by (intro none) (simp add: trigger_put_def)
next
  case (Cons g gs)
  show ?thesis
  proof (cases "length (users r) < capacity r")
    case True
    with Cons show ?thesis by (intro grant [of g gs]) (simp_all add: trigger_put_def)
  next
    case False
    with Cons show ?thesis by (intro none) (simp add: trigger_put_def)
  qed
qed

lemma reader_start_control:
  assumes ok: "lib_control s" and p: "p < length (readers s)"
    and created: "reader_pc (readers s ! p) = ReaderCreated"
    and idle: "idle (queue s) (librarians s) p"
  shows "lib_control (reader_start p s)"
proof -
  define idx where "idx = select_librarIndex (librarians s) (LibrarianBusy (statistic s))"
  have idx: "idx < 2"
    by (simp add: idx_def select_librarIndex_lt)
  define r where "r = (librarians s ! idx)\<lparr>put_queue := put_queue (librarians s ! idx) @ [p]\<rparr>"
  define me where "me = (readers s ! p)
      \<lparr>reader_pc := ReaderWaiting, librarIndex := idx, queueStart := now s\<rparr>"
  define libs1 where "libs1 = (librarians s)[idx := r]"
  have req: "request p (librarians s ! idx) = trigger_put r"
    by (simp add: request_def r_def)
  from ok have len: "length (librarians s) = 2"
    by (simp add: lib_control_def control_ok_def caps_ok_def)
  have r1: "libs1 ! idx = r"
    using idx len by (simp add: libs1_def)
  have step1: "control_ok ((readers s)[p := me]) (queue s) libs1 (LibrarianBusy (statistic s))"
    unfolding libs1_def r_def
    by (rule enqueue_control)
      (use ok p created idle idx in \<open>simp_all add: me_def lib_control_def\<close>)
  show ?thesis
  proof (cases r rule: trigger_put_cases)
    case none
    then have "reader_start p s =
        s\<lparr>librarians := libs1,
          currentQueueLen := currentQueueLen s + 1,
          statistic := (statistic s)
            \<lparr>MaxQueueLen := max (MaxQueueLen (statistic s)) (currentQueueLen s + 1),
             QueueLen := QueueLen (statistic s) @ [(now s, currentQueueLen s + 1)]\<rparr>,
          readers := (readers s)[p := me]\<rparr>"
      by (simp add: reader_start_def Let_def idx_def [symmetric] req
          Library_UpdateQueueStats_def libs1_def me_def)
    with step1 show ?thesis
      by (simp add: lib_control_def)
  next
    case (grant g gs)
    then have "reader_start p s =
        s\<lparr>librarians := libs1[idx := (libs1 ! idx)
             \<lparr>users := users (libs1 ! idx) @ [g], put_queue := gs\<rparr>],
          queue := queue s @ [(now s, NORMAL, eid s, ReaderRequest idx g)],
          eid := eid s + 1,
          currentQueueLen := currentQueueLen s + 1,
          statistic := (statistic s)
            \<lparr>MaxQueueLen := max (MaxQueueLen (statistic s)) (currentQueueLen s + 1),
             QueueLen := QueueLen (statistic s) @ [(now s, currentQueueLen s + 1)]\<rparr>,
          readers := (readers s)[p := me]\<rparr>"
      by (simp add: reader_start_def Let_def idx_def [symmetric] req
          Library_UpdateQueueStats_def schedule_def libs1_def me_def r1 [unfolded libs1_def])
    moreover have "control_ok ((readers s)[p := me])
        (queue s @ [(now s, NORMAL, eid s, ReaderRequest idx g)])
        (libs1[idx := (libs1 ! idx)\<lparr>users := users (libs1 ! idx) @ [g], put_queue := gs\<rparr>])
        (LibrarianBusy (statistic s))"
      using step1 idx grant(1,2) by (intro grant_control) (simp_all add: r1)
    ultimately show ?thesis
      by (simp add: lib_control_def)
  qed
qed

lemma reader_granted_control:
  assumes ok: "lib_control s" and p: "p < length (readers s)"
    and idle: "idle (queue s) (librarians s) p"
    and was: "librarIndex (readers s ! p) < 2"
      "p \<in> set (users (librarians s ! librarIndex (readers s ! p)))"
    and busy: "LibrarianBusy (statistic s) ! librarIndex (readers s ! p) \<le> now s"
    and run: "reader_granted params rs p s = Inr s'"
  shows "lib_control s'"
proof -
  define me where "me = (readers s ! p)
      \<lparr>reader_pc := ReaderServing, queueWait := now s - queueStart (readers s ! p),
       startServe := now s\<rparr>"
  define d where "d = serve_interval params (random_draw rs (lib_drawn s))"
  from run have s': "s' =
      s\<lparr>currentQueueLen := currentQueueLen s - 1,
        statistic := (statistic s)
          \<lparr>MaxQueueLen := max (MaxQueueLen (statistic s)) (currentQueueLen s - 1),
           QueueLen := QueueLen (statistic s) @ [(now s, currentQueueLen s - 1)]\<rparr>,
        lib_drawn := lib_drawn s + 1,
        readers := (readers s)[p := me],
        queue := queue s @ [(now s + d, NORMAL, eid s, ReaderTimeout p)],
        eid := eid s + 1\<rparr>"
    by (auto simp: reader_granted_def Let_def timeout_def schedule_def
        Library_UpdateQueueStats_def me_def d_def split: if_splits)
  have "control_ok ((readers s)[p := me])
      (queue s @ [(now s + d, NORMAL, eid s, ReaderTimeout p)]) (librarians s)
      (LibrarianBusy (statistic s))"
    by (rule begin_control)
      (use ok p idle was busy in \<open>simp_all add: me_def lib_control_def\<close>)
  then show ?thesis
    by (simp add: s' lib_control_def)
qed

lemma reader_served_control:
  assumes ok: "lib_control s" and p: "p < length (readers s)"
    and idle: "idle (queue s) (librarians s) p"
    and was: "reader_pc (readers s ! p) = ReaderServing"
    and run: "reader_served rs p s = Inr s'"
  shows "lib_control s'"
proof -
  define k where "k = librarIndex (readers s ! p)"
  define me where "me = (readers s ! p)\<lparr>reader_pc := ReaderCompleted\<rparr>"
  define b where "b = LibrarianBusy (statistic s) ! k + (now s - startServe (readers s ! p))"
  define libs1 where "libs1 = (librarians s)[k := release p (librarians s ! k)]"
  from ok p was have k: "k < 2"
    by (simp add: lib_control_def control_ok_def serving_ok_def k_def)
  from run obtain getBooks where s': "s' =
      s\<lparr>statistic := (statistic s)
          \<lparr>TimeWaiting := TimeWaiting (statistic s) @ [queueWait (readers s ! p)],
           TimeServed := TimeServed (statistic s) @ [now s - startServe (readers s ! p)],
           ReaderServed := ReaderServed (statistic s) + 1,
           LibrarianBusy := (LibrarianBusy (statistic s))[k := b],
           BooksPerReader := BooksPerReader (statistic s) @ [getBooks]\<rparr>,
        lib_drawn := lib_drawn s + 1,
        librarians := libs1,
        readers := (readers s)[p := me],
        queue := queue s @ [(now s, NORMAL, eid s, LibrarianRelease k)]
                  @ [(now s, NORMAL, eid s + 1, ReaderEnd p)],
        eid := eid s + 1 + 1\<rparr>"
    by (auto simp: reader_served_def Let_def schedule_def me_def k_def b_def libs1_def
        split: sum.splits)
  have 1: "control_ok ((readers s)[p := me]) (queue s) libs1
      ((LibrarianBusy (statistic s))[k := b])"
    unfolding libs1_def k_def
    by (rule end_control) (use ok p idle was in \<open>simp_all add: me_def lib_control_def\<close>)
  have 2: "control_ok ((readers s)[p := me])
      (queue s @ [(now s, NORMAL, eid s, LibrarianRelease k)]) libs1
      ((LibrarianBusy (statistic s))[k := b])"
    using 1 by (rule schedule_control) (simp_all add: k)
  have 3: "control_ok ((readers s)[p := me])
      ((queue s @ [(now s, NORMAL, eid s, LibrarianRelease k)])
          @ [(now s, NORMAL, eid s + 1, ReaderEnd p)]) libs1
      ((LibrarianBusy (statistic s))[k := b])"
    using 2 by (rule schedule_control) simp_all
  then show ?thesis
    by (simp add: s' lib_control_def)
qed

lemma librarian_released_control:
  assumes ok: "lib_control s" and i: "i < 2"
  shows "lib_control (librarian_released i s)"
proof (cases "librarians s ! i" rule: trigger_put_cases)
  case none
  from ok have "length (librarians s) = 2"
    by (simp add: lib_control_def control_ok_def caps_ok_def)
  with none i have "librarian_released i s = s\<lparr>librarians := librarians s\<rparr>"
    by (simp add: librarian_released_def Let_def list_update_id)
  with ok show ?thesis
    by (simp add: lib_control_def)
next
  case (grant g gs)
  then have "librarian_released i s =
      s\<lparr>librarians := (librarians s)[i := (librarians s ! i)
           \<lparr>users := users (librarians s ! i) @ [g], put_queue := gs\<rparr>],
        queue := queue s @ [(now s, NORMAL, eid s, ReaderRequest i g)],
        eid := eid s + 1\<rparr>"
    by (simp add: librarian_released_def Let_def schedule_def)
  moreover have "control_ok (readers s) (queue s @ [(now s, NORMAL, eid s, ReaderRequest i g)])
      ((librarians s)[i := (librarians s ! i)
           \<lparr>users := users (librarians s ! i) @ [g], put_queue := gs\<rparr>])
      (LibrarianBusy (statistic s))"
    by (rule grant_control) (use ok i grant in \<open>simp_all add: lib_control_def\<close>)
  ultimately show ?thesis
    by (simp add: lib_control_def)
qed

lemma spawn_reader_control:
  assumes "lib_control s"
  shows "lib_control (spawn_reader s)"
proof -
  have "control_ok
      (readers s @ [\<lparr>readerId = nextReaderId s, reader_pc = ReaderCreated, librarIndex = 0,
         queueStart = 0, queueWait = 0, startServe = 0\<rparr>])
      (queue s @ [(now s, URGENT, eid s, ReaderInit (length (readers s)))])
      (librarians s) (LibrarianBusy (statistic s))"
    by (rule spawn_control) (use assms in \<open>simp_all add: lib_control_def\<close>)
  then show ?thesis
    by (simp add: spawn_reader_def schedule_def lib_control_def)
qed

lemma spawn_readers_control:
  assumes "lib_control s"
  shows "lib_control (spawn_readers n s)"
  using assms by (induction n arbitrary: s) (simp_all add: spawn_reader_control)

lemma generator_wait_control:
  assumes ok: "lib_control s" and run: "generator_wait params rs s = Inr s'"
  shows "lib_control s'"
proof -
  from run obtain t e where e: "e = GeneratorTimeout \<or> e = GeneratorEnd"
    and s': "queue s' = queue s @ [(t, NORMAL, eid s, e)]" "readers s' = readers s"
      "librarians s' = librarians s" "statistic s' = statistic s"
    by (cases "ArrivalLaw params")
      (auto simp: generator_wait_def Let_def timeout_def schedule_def
        split: if_splits sum.splits)
  have "control_ok (readers s) (queue s @ [(t, NORMAL, eid s, e)]) (librarians s)
      (LibrarianBusy (statistic s))"
    by (rule schedule_control) (use ok e in \<open>auto simp: lib_control_def\<close>)
  then show ?thesis
    by (simp add: s' lib_control_def)
qed

lemma generator_arrive_control:
  assumes ok: "lib_control s" and run: "generator_arrive params rs s = Inr s'"
  shows "lib_control s'"
proof (cases "ArrivalLaw params")
  case Poisson
  from ok have "lib_control (s\<lparr>lib_drawn := lib_drawn s + 1\<rparr>)"
    by (simp add: lib_control_def)
  then have "lib_control (spawn_readers (poisson_draw rs (lib_drawn s))
      (s\<lparr>lib_drawn := lib_drawn s + 1\<rparr>))"
    by (rule spawn_readers_control)
  with run Poisson show ?thesis
    by (auto simp: generator_arrive_def split: if_splits intro: generator_wait_control)
next
  case (Unrecognized tag)
  with run ok show ?thesis
    by (simp add: generator_arrive_def)
qed (use run ok in \<open>auto simp: generator_arrive_def
      intro: generator_wait_control spawn_reader_control\<close>)

lemmas lib_handler_defs =
  reader_start_def reader_granted_def reader_served_def librarian_released_def
  spawn_reader_def Library_UpdateQueueStats_def schedule_def timeout_def Let_def

lemma reader_start_time:
  assumes "lib_time params s"
  shows "lib_time params (reader_start p s)"
  using assms
  by (auto simp: lib_time_def lib_handler_defs split: prod.splits option.splits)

lemma reader_granted_time:
  assumes "lib_time params s" and "reader_granted params rs p s = Inr s'"
  shows "lib_time params s'"
  using assms
  by (auto simp: lib_time_def lib_handler_defs split: if_splits)

lemma reader_served_time:
  assumes "lib_time params s" and "reader_served rs p s = Inr s'"
    and "length (LibrarianBusy (statistic s)) = 2" and "librarIndex (readers s ! p) < 2"
    and "LibrarianBusy (statistic s) ! librarIndex (readers s ! p) \<le> startServe (readers s ! p)"
  shows "lib_time params s'"
  using assms
  by (auto simp: lib_time_def lib_handler_defs nth_list_update split: sum.splits)

lemma librarian_released_time:
  assumes "lib_time params s"
  shows "lib_time params (librarian_released i s)"
  using assms
  by (auto simp: lib_time_def lib_handler_defs split: prod.splits option.splits)

lemma spawn_reader_time:
  assumes "lib_time params s"
  shows "lib_time params (spawn_reader s)"
  using assms
  by (auto simp: lib_time_def lib_handler_defs)

lemma spawn_readers_time:
  assumes "lib_time params s"
  shows "lib_time params (spawn_readers n s)"
  using assms by (induction n arbitrary: s) (simp_all add: spawn_reader_time)

lemma generator_wait_time:
  assumes "lib_time params s" and "generator_wait params rs s = Inr s'"
  shows "lib_time params s'"
  using assms
  by (cases "ArrivalLaw params")
    (auto simp: lib_time_def generator_wait_def Let_def timeout_def schedule_def
      split: if_splits sum.splits)

lemma generator_arrive_time:
  assumes ok: "lib_time params s" and run: "generator_arrive params rs s = Inr s'"
  shows "lib_time params s'"
proof (cases "ArrivalLaw params")
  case Poisson
  from ok have "lib_time params (s\<lparr>lib_drawn := lib_drawn s + 1\<rparr>)"
    by (simp add: lib_time_def)
  then have "lib_time params (spawn_readers (poisson_draw rs (lib_drawn s))
      (s\<lparr>lib_drawn := lib_drawn s + 1\<rparr>))"
    by (rule spawn_readers_time)
  with run Poisson show ?thesis
    by (auto simp: generator_arrive_def split: if_splits intro: generator_wait_time)
next
  case (Unrecognized tag)
  with run ok show ?thesis
    by (simp add: generator_arrive_def)
qed (use run ok in \<open>auto simp: generator_arrive_def
      intro: generator_wait_time spawn_reader_time\<close>)

lemmas lib_stats_simps = lib_stats_def lib_handler_defs count_where_update

lemma reader_start_stats:
  assumes "lib_stats s" and "p < length (readers s)"
    and "reader_pc (readers s ! p) = ReaderCreated"
  shows "lib_stats (reader_start p s)"
  using assms
  by (auto simp: lib_stats_simps split: prod.splits option.splits)

lemma reader_granted_stats:
  assumes "lib_stats s" and "p < length (readers s)"
    and "reader_pc (readers s ! p) = ReaderWaiting"
    and "reader_granted params rs p s = Inr s'"
  shows "lib_stats s'"
  using assms count_where_pos [of p "readers s" "\<lambda>r. reader_pc r = ReaderWaiting"]
  by (auto simp: lib_stats_simps split: if_splits)

lemma reader_served_stats:
  assumes "lib_stats s" and "p < length (readers s)"
    and "reader_pc (readers s ! p) = ReaderServing"
    and "reader_served rs p s = Inr s'"
  shows "lib_stats s'"
  using assms
  by (auto simp: lib_stats_simps split: sum.splits)

lemma librarian_released_stats:
  assumes "lib_stats s"
  shows "lib_stats (librarian_released i s)"
  using assms
  by (auto simp: lib_stats_simps split: prod.splits option.splits)

lemma spawn_reader_stats:
  assumes "lib_stats s"
  shows "lib_stats (spawn_reader s)"
  using assms
  by (auto simp: lib_stats_def spawn_reader_def schedule_def)

lemma spawn_readers_stats:
  assumes "lib_stats s"
  shows "lib_stats (spawn_readers n s)"
  using assms by (induction n arbitrary: s) (simp_all add: spawn_reader_stats)

lemma generator_wait_stats:
  assumes "lib_stats s" and "generator_wait params rs s = Inr s'"
  shows "lib_stats s'"
  using assms
  by (cases "ArrivalLaw params")
    (auto simp: lib_stats_def generator_wait_def Let_def timeout_def schedule_def
      split: if_splits sum.splits)

lemma generator_arrive_stats:
  assumes ok: "lib_stats s" and run: "generator_arrive params rs s = Inr s'"
  shows "lib_stats s'"
proof (cases "ArrivalLaw params")
  case Poisson
  from ok have "lib_stats (s\<lparr>lib_drawn := lib_drawn s + 1\<rparr>)"
    by (simp add: lib_stats_def)
  then have "lib_stats (spawn_readers (poisson_draw rs (lib_drawn s))
      (s\<lparr>lib_drawn := lib_drawn s + 1\<rparr>))"
    by (rule spawn_readers_stats)
  with run Poisson show ?thesis
    by (auto simp: generator_arrive_def split: if_splits intro: generator_wait_stats)
next
  case (Unrecognized tag)
  with run ok show ?thesis
    by (simp add: generator_arrive_def)
qed (use run ok in \<open>auto simp: generator_arrive_def
      intro: generator_wait_stats spawn_reader_stats\<close>)

lemma heappop_lib_inv:
  assumes inv: "lib_inv params s" and pop: "heappop s = Some ((t, pr, n, e), s1)"
  shows "lib_inv params s1" and "lib_event_ok (readers s1) (librarians s1) e"
    and "\<And>p. lib_event_pid e = Some p \<Longrightarrow> idle (queue s1) (librarians s1) p"
    and "now s1 = t" and "e = LibraryUntil \<Longrightarrow> t = SimTime params"
proof -
  note h = heappop_Some [OF pop]
  from inv have ok: "control_ok (readers s) (queue s) (librarians s) (LibrarianBusy (statistic s))"
    by (simp add: lib_inv_def lib_control_def)
  note c = pop_control [OF ok h(1)]
  from c(2) show "lib_event_ok (readers s1) (librarians s1) e"
    by (simp add: h(2))
  from c(3) show "idle (queue s1) (librarians s1) p" if "lib_event_pid e = Some p" for p
    using that by (simp add: h(2))
  show "now s1 = t"
    by (simp add: h(2))
  from inv h(1) have t: "now s \<le> t" and u: "e = LibraryUntil \<longrightarrow> t = SimTime params"
    by (auto simp: lib_inv_def lib_time_def)
  from u show "e = LibraryUntil \<Longrightarrow> t = SimTime params"
    by simp
  have "lib_time params s1"
    using inv t h(3)
    by (auto simp: lib_inv_def lib_time_def h(2) dest!: remove1_subset intro: order_trans)
  moreover have "lib_stats s1"
    using inv by (simp add: lib_inv_def lib_stats_def h(2))
  moreover have "lib_control s1"
    using c(1) by (simp add: lib_control_def h(2))
  ultimately show "lib_inv params s1"
    by (simp add: lib_inv_def)
qed

lemma ReaderProcess_inv:
  assumes inv: "lib_inv params s" and e: "lib_event_pid e = Some p"
    and ev: "lib_event_ok (readers s) (librarians s) e"
    and idle: "idle (queue s) (librarians s) p"
    and run: "ReaderProcess params rs p s = Inr s'"
  shows "lib_inv params s'"
proof -
  from inv have ok: "lib_control s" and time: "lib_time params s" and stats: "lib_stats s"
    by (simp_all add: lib_inv_def)
  show ?thesis
  proof (cases e)
    case (ReaderInit p')
    with e ev have p: "p < length (readers s)" "reader_pc (readers s ! p) = ReaderCreated"
      by auto
    with run have s': "s' = reader_start p s"
      by (simp add: ReaderProcess_def)
    show ?thesis
      unfolding s' lib_inv_def
      using reader_start_control [OF ok p idle] reader_start_time [OF time]
        reader_start_stats [OF stats p]
      by simp
  next
    case (ReaderRequest i p')
    with e ev have p: "p < length (readers s)" "reader_pc (readers s ! p) = ReaderWaiting"
      and i: "librarIndex (readers s ! p) < 2"
        "p \<in> set (users (librarians s ! librarIndex (readers s ! p)))"
      by auto
    from p run have g: "reader_granted params rs p s = Inr s'"
      by (simp add: ReaderProcess_def)
    from time i(1) have "LibrarianBusy (statistic s) ! librarIndex (readers s ! p) \<le> now s"
      by (simp add: lib_time_def)
    from reader_granted_control [OF ok p(1) idle i this g] reader_granted_time [OF time g]
      reader_granted_stats [OF stats p g]
    show ?thesis
      by (simp add: lib_inv_def)
  next
    case (ReaderTimeout p')
    with e ev have p: "p < length (readers s)" "reader_pc (readers s ! p) = ReaderServing"
      by auto
    from p run have g: "reader_served rs p s = Inr s'"
      by (simp add: ReaderProcess_def)
    from ok p have b: "length (LibrarianBusy (statistic s)) = 2"
      "librarIndex (readers s ! p) < 2"
      "LibrarianBusy (statistic s) ! librarIndex (readers s ! p) \<le> startServe (readers s ! p)"
      by (simp_all add: lib_control_def control_ok_def serving_ok_def)
    from reader_served_control [OF ok p(1) idle p(2) g] reader_served_time [OF time g b]
      reader_served_stats [OF stats p g]
    show ?thesis
      by (simp add: lib_inv_def)
  qed (use e in simp_all)
qed

lemma Library_step_inv:
  assumes inv: "lib_inv params s"
    and step: "Library_step params rs s = Running s' \<or> Library_step params rs s = Stopped s'"
  shows "lib_inv params s'"
proof -
  from step obtain t pr n e s1 where pop: "heappop s = Some ((t, pr, n, e), s1)"
    and cb: "lib_callbacks params rs e s1 = Running s'
      \<or> lib_callbacks params rs e s1 = Stopped s'"
    by (auto simp: Library_step_def split: option.splits)
  note p = heappop_lib_inv [OF inv pop]
  from p(1) have ok: "lib_control s1" and time: "lib_time params s1" and stats: "lib_stats s1"
    by (simp_all add: lib_inv_def)
  have process: "lib_inv params s'"
    if "lib_event_pid e = Some pid" and "ReaderProcess params rs pid s1 = Inr s'" for pid
    using p(1) that(1) p(2) p(3) [OF that(1)] that(2) by (rule ReaderProcess_inv)
  show ?thesis
  proof (cases e)
    case GeneratorInit
    have "lib_inv params (s1\<lparr>nextReaderId := 1\<rparr>)"
      using p(1) by (simp add: lib_inv_def lib_control_def lib_time_def lib_stats_def)
    with cb GeneratorInit show ?thesis
      by (auto simp: lib_inv_def
          intro: generator_wait_control generator_wait_time generator_wait_stats)
  next
    case GeneratorTimeout
    with cb ok time stats show ?thesis
      by (auto simp: lib_inv_def
          intro: generator_arrive_control generator_arrive_time generator_arrive_stats)
  next
    case GeneratorEnd
    with cb p(1) show ?thesis by auto
  next
    case (ReaderInit pid)
    with cb show ?thesis by (auto intro: process)
  next
    case (ReaderRequest i pid)
    with cb show ?thesis by (auto intro: process)
  next
    case (ReaderTimeout pid)
    with cb show ?thesis by (auto intro: process)
  next
    case (LibrarianRelease i)
    with p(2) have "i < 2" by simp
    with cb LibrarianRelease ok time stats show ?thesis
      by (auto simp: lib_inv_def
          intro: librarian_released_control librarian_released_time librarian_released_stats)
  next
    case (ReaderEnd pid)
    with cb p(1) show ?thesis by auto
  next
    case LibraryUntil
    with cb p(1) show ?thesis by auto
  qed
qed

lemma Library_step_Stopped:
  assumes "lib_inv params s" and "Library_step params rs s = Stopped s'"
  shows "now s' = SimTime params"
proof -
  from assms(2) obtain t pr n e s1 where pop: "heappop s = Some ((t, pr, n, e), s1)"
    and cb: "lib_callbacks params rs e s1 = Stopped s'"
    by (auto simp: Library_step_def split: option.splits)
  from cb have e: "e = LibraryUntil" and s': "s' = s1"
    by (cases e; auto)+
  from heappop_lib_inv(4,5) [OF assms(1) pop] e s' show ?thesis
    by simp
qed

lemma Library_start_inv:
  assumes "Library_start params = Inr s"
  shows "lib_inv params s"
proof -
  from assms have s: "s = Library\<lparr>queue := [(0, URGENT, 0, GeneratorInit),
      (SimTime params, URGENT, 1, LibraryUntil)], eid := 2\<rparr>" and pos: "0 < SimTime params"
    by (auto simp: Library_start_def Library_def schedule_def Let_def split: if_splits)
  have "lib_control s"
    by (auto simp: s Library_def lib_control_def control_ok_def caps_ok_def events_ok_def
        unique_ok_def queues_ok_def serving_ok_def heap_count_def Resource_def
        less_2_cases_iff)
  moreover have "lib_time params s"
    using pos by (auto simp: s Library_def lib_time_def less_2_cases_iff)
  moreover have "lib_stats s"
    by (simp add: s Library_def lib_stats_def count_where_def)
  ultimately show ?thesis
    by (simp add: lib_inv_def)
qed

lemma Library_reachable_inv:
  assumes "Library_reachable params rs s"
  shows "lib_inv params s"
  using assms
proof induction
  case (lib_start s)
  then show ?case by (rule Library_start_inv)
next
  case (lib_running s s')
  then show ?case by (auto intro: Library_step_inv)
next
  case (lib_stopped s s')
  then show ?case by (auto intro: Library_step_inv)
qed

lemma Library_run_reachable:
  assumes "Library_reachable params rs s" and "Library_run params rs fuel s = Some (Inr s')"
  shows "Library_reachable params rs s' \<and> now s' = SimTime params"
  using assms
proof (induction fuel arbitrary: s)
  case 0
  then show ?case by simp
next
  case (Suc fuel)
  show ?case
  proof (cases "Library_step params rs s")
    case (Running s1)
    with Suc.prems have "Library_reachable params rs s1"
      and "Library_run params rs fuel s1 = Some (Inr s')"
      by (auto intro: lib_running)
    then show ?thesis by (rule Suc.IH)
  next
    case (Stopped s1)
    with Suc.prems have s1: "s1 = s'" by simp
    from Suc.prems(1) Stopped have "Library_reachable params rs s1"
      by (rule lib_stopped)
    moreover have "now s1 = SimTime params"
      using Library_reachable_inv [OF Suc.prems(1)] Stopped
      by (rule Library_step_Stopped)
    ultimately show ?thesis by (simp add: s1)
  next
    case (Failed e)
    with Suc.prems show ?thesis by simp
  qed
qed

lemma Library_RunSim_final:
  assumes "Library_RunSim params rs fuel = Some (Inr st)"
  obtains s where "Library_reachable params rs s" and "now s = SimTime params"
    and "st = statistic s"
proof -
  from assms obtain s0 s where start: "Library_start params = Inr s0"
    and run: "Library_run params rs fuel s0 = Some (Inr s)"
    and st: "st = statistic s"
    by (auto simp: Library_RunSim_def split: sum.splits option.splits)
  from start have "Library_reachable params rs s0"
    by (rule lib_start)
  from Library_run_reachable [OF this run] st that show thesis
    by blast
qed

subsection \<open>The state in which a run stops\<close>

lemma lone_customer_result: "Supermarket_RunSim shop_params lone_source 20 = Some (Inr lone_result)"
  by (simp add: lone_customer_run lone_result_def)

lemma short_run: "Supermarket_final short_params lone_source 20 = Some (Inr short_final)"
  by (simp add: Supermarket_final_def market_defs kernel_defs Supermarket_run_numeral
      expovariate_gap expovariate_zero lone_source_def short_params_def short_final_def)

lemma desk_run: "Library_RunSim desk_params zero_source 40 = Some (Inr desk_result)"
  by (simp add: lib_defs kernel_defs Library_run_numeral zero_source_def desk_params_def
      desk_result_def)

lemma early_run: "Library_final early_params zero_source 20 = Some (Inr early_final)"
  by (simp add: Library_final_def lib_defs kernel_defs Library_run_numeral zero_source_def
      desk_params_def early_params_def early_final_def)

lemma Supermarket_RunSim_final_eq:
  "Supermarket_RunSim params rs fuel =
     map_option (map_sum id (close_busy_interval params)) (Supermarket_final params rs fuel)"
  by (simp add: Supermarket_RunSim_def Supermarket_final_def split: sum.splits option.splits)

lemma Library_RunSim_final_eq:
  "Library_RunSim params rs fuel =
     map_option (map_sum id statistic) (Library_final params rs fuel)"
  by (simp add: Library_RunSim_def Library_final_def split: sum.splits option.splits)

lemma Supermarket_final_reachable:
  assumes "Supermarket_final params rs fuel = Some (Inr s)"
  shows "Supermarket_reachable params rs s" and "now s = simTime params"
proof -
  from assms obtain s0 where start: "Supermarket_start params = Inr s0"
    and run: "Supermarket_run params rs fuel s0 = Some (Inr s)"
    by (auto simp: Supermarket_final_def split: sum.splits)
  from start have "Supermarket_reachable params rs s0"
    by (rule market_start)
  from Supermarket_run_reachable [OF this run]
  show "Supermarket_reachable params rs s" and "now s = simTime params"
    by simp_all
qed

lemma Library_final_reachable:
  assumes "Library_final params rs fuel = Some (Inr s)"
  shows "Library_reachable params rs s" and "now s = SimTime params"
proof -
  from assms obtain s0 where start: "Library_start params = Inr s0"
    and run: "Library_run params rs fuel s0 = Some (Inr s)"
    by (auto simp: Library_final_def split: sum.splits)
  from start have "Library_reachable params rs s0"
    by (rule lib_start)
  from Library_run_reachable [OF this run]
  show "Library_reachable params rs s" and "now s = SimTime params"
    by simp_all
qed

subsection \<open>The maximum of the queue length\<close>

lemma log_max_nonempty:
  assumes "xs \<noteq> []" and "\<forall>x \<in> set xs. 0 \<le> snd x"
  shows "log_max xs = Max (set (map snd xs))"
proof -
  from assms(1) obtain x xs' where xs: "xs = x # xs'"
    by (cases xs) simp_all
  have fin: "finite (snd ` set xs)"
    by (rule finite_imageI) (rule finite_set)
  have mem: "snd x \<in> snd ` set xs"
    unfolding xs by (rule imageI) (rule list.set_intros(1))
  then have ne: "snd ` set xs \<noteq> {}"
    by (metis empty_iff)
  have "x \<in> set xs"
    unfolding xs by (rule list.set_intros(1))
  with assms(2) have "0 \<le> snd x"
    by (rule bspec)
  also have "snd x \<le> Max (snd ` set xs)"
    by (rule Max_ge [OF fin mem])
  finally have nn: "0 \<le> Max (snd ` set xs)" .
  have "log_max xs = max 0 (Max (snd ` set xs))"
    unfolding log_max_def by (rule Max_insert [OF fin ne])
  also from nn have "\<dots> = Max (snd ` set xs)"
    by (rule max_absorb2)
  finally show ?thesis
    unfolding set_map .
qed

text \<open>
  C8.  At the end of every run the reported maximum of the queue length is the greatest
  value of the log of (time, length) pairs, whenever that log is not empty: in the
  supermarket \<open>maxQueueLength\<close> against \<open>queueLengths\<close>, in the library
  \<open>MaxQueueLen\<close> against \<open>QueueLen\<close>.
\<close>

theorem max_queue_length_is_log_maximum:
  "(Supermarket_RunSim mp rs fuel = Some (Inr st) \<longrightarrow> queueLengths st \<noteq> []
      \<longrightarrow> maxQueueLength st = Max (set (map snd (queueLengths st))))
   \<and> (Library_RunSim lp rs' fuel' = Some (Inr st') \<longrightarrow> QueueLen st' \<noteq> []
      \<longrightarrow> MaxQueueLen st' = Max (set (map snd (QueueLen st'))))"
proof (intro conjI impI)
  assume run: "Supermarket_RunSim mp rs fuel = Some (Inr st)" and ne: "queueLengths st \<noteq> []"
  from run obtain s where s: "Supermarket_reachable mp rs s"
    and st: "st = close_busy_interval mp s"
    by (rule Supermarket_RunSim_final)
  from Supermarket_reachable_inv [OF s] have "market_log s"
    by (simp add: market_inv_def market_stats_def)
  then have "maxQueueLength st = log_max (queueLengths st)"
    and "\<forall>x \<in> set (queueLengths st). 0 \<le> snd x"
    by (simp_all add: market_log_def st close_busy_interval_def split: option.splits)
  with ne show "maxQueueLength st = Max (set (map snd (queueLengths st)))"
    by (simp add: log_max_nonempty)
next
  assume run: "Library_RunSim lp rs' fuel' = Some (Inr st')" and ne: "QueueLen st' \<noteq> []"
  from run obtain s where s: "Library_reachable lp rs' s" and st: "st' = statistic s"
    by (rule Library_RunSim_final)
  from Library_reachable_inv [OF s] have "lib_stats s"
    by (simp add: lib_inv_def)
  then have "MaxQueueLen st' = log_max (QueueLen st')"
    and "\<forall>x \<in> set (QueueLen st'). 0 \<le> snd x"
    by (simp_all add: lib_stats_def st)
  with ne show "MaxQueueLen st' = Max (set (map snd (QueueLen st')))"
    by (simp add: log_max_nonempty)
qed

text \<open>The theorem at the run of the lone customer and at the run of the library with
  the horizon at 100 seconds.\<close>

theorem max_queue_length_is_log_maximum_witness:
  "Supermarket_RunSim shop_params lone_source 20 = Some (Inr lone_result)
   \<and> queueLengths lone_result \<noteq> []
   \<and> maxQueueLength lone_result = Max (set (map snd (queueLengths lone_result)))
   \<and> Library_RunSim desk_params zero_source 40 = Some (Inr desk_result)
   \<and> QueueLen desk_result \<noteq> []
   \<and> MaxQueueLen desk_result = Max (set (map snd (QueueLen desk_result)))"
proof -
  have a: "queueLengths lone_result \<noteq> []"
    by (simp add: lone_result_def)
  have b: "QueueLen desk_result \<noteq> []"
    by (simp add: desk_result_def)
  note t = max_queue_length_is_log_maximum [of shop_params lone_source 20 lone_result
      desk_params zero_source 40 desk_result]
  note t1 = t [THEN conjunct1, rule_format, OF lone_customer_result a]
  note t2 = t [THEN conjunct2, rule_format, OF desk_run b]
  show ?thesis
    by (intro conjI lone_customer_result a t1 desk_run b t2)
qed

subsection \<open>Baskets in use\<close>



subsection \<open>The served count and the lists of samples\<close>

text \<open>
  C10.  In every state of a run, and in the result of \<open>RunSim\<close>, the served count is
  the length of each list of samples of the completed entities: in the supermarket
  \<open>customersServed\<close> = |\<open>waitTimes\<close>| = |\<open>purchaseCounts\<close>| = |\<open>customerData\<close>|,
  in the library \<open>ReaderServed\<close> = |\<open>TimeWaiting\<close>| = |\<open>TimeServed\<close>| =
  |\<open>BooksPerReader\<close>|.  It is the number of processes that have completed, so an
  entity that has not completed when the run stops is in none of them.  The states of a
  run are those between two events: the lists and the count are updated in one piece of
  code that does not yield.
\<close>

theorem served_count_is_length_of_samples:
  "(Supermarket_reachable mp rs s \<longrightarrow>
      customersServed (stats s) = int (length (waitTimes (stats s)))
      \<and> customersServed (stats s) = int (length (purchaseCounts (stats s)))
      \<and> customersServed (stats s) = int (length (customerData (stats s)))
      \<and> customersServed (stats s)
          = count_where (\<lambda>c. customer_pc c = CustomerCompleted) (customers s))
   \<and> (Supermarket_RunSim mp rs fuel = Some (Inr st) \<longrightarrow>
      customersServed st = int (length (waitTimes st))
      \<and> customersServed st = int (length (purchaseCounts st))
      \<and> customersServed st = int (length (customerData st)))
   \<and> (Supermarket_final mp rs fuel = Some (Inr s') \<longrightarrow>
      Supermarket_RunSim mp rs fuel = Some (Inr (close_busy_interval mp s'))
      \<and> customersServed (close_busy_interval mp s')
          = count_where (\<lambda>c. customer_pc c = CustomerCompleted) (customers s'))
   \<and> (Library_reachable lp rs' l \<longrightarrow>
      ReaderServed (statistic l) = int (length (TimeWaiting (statistic l)))
      \<and> ReaderServed (statistic l) = int (length (TimeServed (statistic l)))
      \<and> ReaderServed (statistic l) = int (length (BooksPerReader (statistic l)))
      \<and> ReaderServed (statistic l)
          = count_where (\<lambda>r. reader_pc r = ReaderCompleted) (readers l))
   \<and> (Library_RunSim lp rs' fuel' = Some (Inr st') \<longrightarrow>
      ReaderServed st' = int (length (TimeWaiting st'))
      \<and> ReaderServed st' = int (length (TimeServed st'))
      \<and> ReaderServed st' = int (length (BooksPerReader st')))
   \<and> (Library_final lp rs' fuel' = Some (Inr l') \<longrightarrow>
      Library_RunSim lp rs' fuel' = Some (Inr (statistic l'))
      \<and> ReaderServed (statistic l')
          = count_where (\<lambda>r. reader_pc r = ReaderCompleted) (readers l'))"
proof -
  have market: "customersServed (stats s) = int (length (waitTimes (stats s)))
      \<and> customersServed (stats s) = int (length (purchaseCounts (stats s)))
      \<and> customersServed (stats s) = int (length (customerData (stats s)))
      \<and> customersServed (stats s)
          = count_where (\<lambda>c. customer_pc c = CustomerCompleted) (customers s)"
    if "Supermarket_reachable mp rs s" for s
    using Supermarket_reachable_inv [OF that]
    by (simp add: market_inv_def market_stats_def market_counts_def)
  have closed: "customersServed (close_busy_interval mp s) = customersServed (stats s)"
    "waitTimes (close_busy_interval mp s) = waitTimes (stats s)"
    "purchaseCounts (close_busy_interval mp s) = purchaseCounts (stats s)"
    "customerData (close_busy_interval mp s) = customerData (stats s)" for s
    by (simp_all add: close_busy_interval_def split: option.splits)
  have lib: "ReaderServed (statistic l) = int (length (TimeWaiting (statistic l)))
      \<and> ReaderServed (statistic l) = int (length (TimeServed (statistic l)))
      \<and> ReaderServed (statistic l) = int (length (BooksPerReader (statistic l)))
      \<and> ReaderServed (statistic l)
          = count_where (\<lambda>r. reader_pc r = ReaderCompleted) (readers l)"
    if "Library_reachable lp rs' l" for l
    using Library_reachable_inv [OF that]
    by (simp add: lib_inv_def lib_stats_def)
  show ?thesis
  proof (intro conjI impI)
    assume "Supermarket_reachable mp rs s"
    note m = market [OF this]
    show "customersServed (stats s) = int (length (waitTimes (stats s)))"
      by (rule m [THEN conjunct1])
    show "customersServed (stats s) = int (length (purchaseCounts (stats s)))"
      by (rule m [THEN conjunct2, THEN conjunct1])
    show "customersServed (stats s) = int (length (customerData (stats s)))"
      by (rule m [THEN conjunct2, THEN conjunct2, THEN conjunct1])
    show "customersServed (stats s)
        = count_where (\<lambda>c. customer_pc c = CustomerCompleted) (customers s)"
      by (rule m [THEN conjunct2, THEN conjunct2, THEN conjunct2])
  next
    assume "Library_reachable lp rs' l"
    note m = lib [OF this]
    show "ReaderServed (statistic l) = int (length (TimeWaiting (statistic l)))"
      by (rule m [THEN conjunct1])
    show "ReaderServed (statistic l) = int (length (TimeServed (statistic l)))"
      by (rule m [THEN conjunct2, THEN conjunct1])
    show "ReaderServed (statistic l) = int (length (BooksPerReader (statistic l)))"
      by (rule m [THEN conjunct2, THEN conjunct2, THEN conjunct1])
    show "ReaderServed (statistic l)
        = count_where (\<lambda>r. reader_pc r = ReaderCompleted) (readers l)"
      by (rule m [THEN conjunct2, THEN conjunct2, THEN conjunct2])
  next
    assume "Supermarket_RunSim mp rs fuel = Some (Inr st)"
    then obtain s0 where s0: "Supermarket_reachable mp rs s0"
      and st: "st = close_busy_interval mp s0"
      by (rule Supermarket_RunSim_final)
    note m = market [OF s0]
    show "customersServed st = int (length (waitTimes st))"
      unfolding st closed by (rule m [THEN conjunct1])
    show "customersServed st = int (length (purchaseCounts st))"
      unfolding st closed by (rule m [THEN conjunct2, THEN conjunct1])
    show "customersServed st = int (length (customerData st))"
      unfolding st closed by (rule m [THEN conjunct2, THEN conjunct2, THEN conjunct1])
  next
    assume fin: "Supermarket_final mp rs fuel = Some (Inr s')"
    then show "Supermarket_RunSim mp rs fuel = Some (Inr (close_busy_interval mp s'))"
      by (simp add: Supermarket_RunSim_final_eq)
    from market [OF Supermarket_final_reachable(1) [OF fin]]
    show "customersServed (close_busy_interval mp s')
        = count_where (\<lambda>c. customer_pc c = CustomerCompleted) (customers s')"
      unfolding closed by (rule conjunct2 [THEN conjunct2, THEN conjunct2])
  next
    assume "Library_RunSim lp rs' fuel' = Some (Inr st')"
    then obtain l0 where l0: "Library_reachable lp rs' l0" and st: "st' = statistic l0"
      by (rule Library_RunSim_final)
    note m = lib [OF l0]
    show "ReaderServed st' = int (length (TimeWaiting st'))"
      unfolding st by (rule m [THEN conjunct1])
    show "ReaderServed st' = int (length (TimeServed st'))"
      unfolding st by (rule m [THEN conjunct2, THEN conjunct1])
    show "ReaderServed st' = int (length (BooksPerReader st'))"
      unfolding st by (rule m [THEN conjunct2, THEN conjunct2, THEN conjunct1])
  next
    assume fin: "Library_final lp rs' fuel' = Some (Inr l')"
    then show "Library_RunSim lp rs' fuel' = Some (Inr (statistic l'))"
      by (simp add: Library_RunSim_final_eq)
    from lib [OF Library_final_reachable(1) [OF fin]]
    show "ReaderServed (statistic l')
        = count_where (\<lambda>r. reader_pc r = ReaderCompleted) (readers l')"
      by (rule conjunct2 [THEN conjunct2, THEN conjunct2])
  qed
qed

text \<open>The theorem at the runs that stop during a service (nobody served, one entity
  in service) and at the runs in which one entity is served.\<close>

theorem served_count_is_length_of_samples_witness:
  "Supermarket_reachable short_params lone_source short_final
   \<and> map customer_pc (customers short_final) = [Paying]
   \<and> customersServed (stats short_final) = 0
   \<and> waitTimes (stats short_final) = []
   \<and> Supermarket_RunSim shop_params lone_source 20 = Some (Inr lone_result)
   \<and> customersServed lone_result = 1
   \<and> customersServed lone_result = int (length (waitTimes lone_result))
   \<and> customersServed lone_result = int (length (purchaseCounts lone_result))
   \<and> customersServed lone_result = int (length (customerData lone_result))
   \<and> Supermarket_final short_params lone_source 20 = Some (Inr short_final)
   \<and> customersServed (close_busy_interval short_params short_final) = 0
   \<and> Library_reachable early_params zero_source early_final
   \<and> map reader_pc (readers early_final) = [ReaderServing]
   \<and> ReaderServed (statistic early_final) = 0
   \<and> TimeServed (statistic early_final) = []
   \<and> Library_RunSim desk_params zero_source 40 = Some (Inr desk_result)
   \<and> ReaderServed desk_result = 1
   \<and> ReaderServed desk_result = int (length (TimeWaiting desk_result))
   \<and> ReaderServed desk_result = int (length (TimeServed desk_result))
   \<and> ReaderServed desk_result = int (length (BooksPerReader desk_result))
   \<and> Library_final early_params zero_source 20 = Some (Inr early_final)
   \<and> Library_RunSim early_params zero_source 20 = Some (Inr (statistic early_final))"
proof -
  have r: "Supermarket_reachable short_params lone_source short_final"
    using short_run by (rule Supermarket_final_reachable)
  have r': "Library_reachable early_params zero_source early_final"
    using early_run by (rule Library_final_reachable)
  have p: "map customer_pc (customers short_final) = [Paying]"
    by (simp add: short_final_def)
  have p': "map reader_pc (readers early_final) = [ReaderServing]"
    by (simp add: early_final_def)
  have c: "count_where (\<lambda>c. customer_pc c = CustomerCompleted) (customers short_final) = 0"
    by (simp add: short_final_def count_where_def)
  have w: "waitTimes (stats short_final) = []"
    by (simp add: short_final_def)
  have w': "TimeServed (statistic early_final) = []"
    by (simp add: early_final_def)
  have n: "customersServed lone_result = 1"
    by (simp add: lone_result_def)
  have n': "ReaderServed desk_result = 1"
    by (simp add: desk_result_def)
  have z': "ReaderServed (statistic early_final) = 0"
    by (simp add: early_final_def)
  note t = served_count_is_length_of_samples [of short_params lone_source short_final _ _ _
      early_params zero_source early_final]
  note t1 = t [THEN conjunct1, rule_format, OF r]
  note t4 = t [THEN conjunct2, THEN conjunct2, THEN conjunct2, THEN conjunct1, rule_format, OF r']
  note u = served_count_is_length_of_samples [of shop_params lone_source _ 20 lone_result _
      desk_params zero_source _ 40 desk_result]
  note u2 = u [THEN conjunct2, THEN conjunct1, rule_format, OF lone_customer_result]
  note u5 = u [THEN conjunct2, THEN conjunct2, THEN conjunct2, THEN conjunct2, THEN conjunct1,
      rule_format, OF desk_run]
  note v = served_count_is_length_of_samples [of short_params lone_source _ 20 _ short_final
      early_params zero_source _ 20 _ early_final]
  note v3 = v [THEN conjunct2, THEN conjunct2, THEN conjunct1, rule_format, OF short_run]
  note v6 = v [THEN conjunct2, THEN conjunct2, THEN conjunct2, THEN conjunct2, THEN conjunct2,
      rule_format, OF early_run]
  from t1 [THEN conjunct2, THEN conjunct2, THEN conjunct2] c
  have z: "customersServed (stats short_final) = 0"
    by (simp only:)
  from v3 c have z3: "customersServed (close_busy_interval short_params short_final) = 0"
    by (simp only:)
  show ?thesis
    by (intro conjI r p z w lone_customer_result n u2 [THEN conjunct1]
        u2 [THEN conjunct2, THEN conjunct1] u2 [THEN conjunct2, THEN conjunct2]
        short_run z3 r' p' z' w' desk_run n' u5 [THEN conjunct1]
        u5 [THEN conjunct2, THEN conjunct1] u5 [THEN conjunct2, THEN conjunct2]
        early_run v6 [THEN conjunct1])
qed

subsection \<open>A service in progress when the library stops\<close>

text \<open>
  C4.  The claim fails for the librarians.  \<open>RunSim\<close> of TaskB.py returns
  \<open>library.statistic\<close> as the run left it, and \<open>LibrarianBusy\<close> is credited only
  after the timeout of a service (line 51).  With the horizon at 50 seconds the first
  reader holds librarian 1 since 30 seconds when the run stops; the interval from 30 to 50
  is credited to nobody and the reported busy times are 0 and 0.
\<close>

theorem open_service_interval_is_dropped:
  "Library_final early_params zero_source 20 = Some (Inr early_final)
   \<and> now early_final = SimTime early_params
   \<and> in_service early_final = [(1, 30)]
   \<and> users (librarians early_final ! 1) = [0]
   \<and> Library_RunSim early_params zero_source 20 = Some (Inr (statistic early_final))
   \<and> LibrarianBusy (statistic early_final) = [0, 0]"
proof (intro conjI)
  show "Library_final early_params zero_source 20 = Some (Inr early_final)"
    by (rule early_run)
  then show "Library_RunSim early_params zero_source 20 = Some (Inr (statistic early_final))"
    by (simp add: Library_RunSim_final_eq)
qed (simp_all add: early_final_def early_params_def desk_params_def in_service_def)

end
